theory Spec2Isabelle
  imports Complex_Main "HOL-Library.Word" "HOL-Library.Sublist"
begin

unbundle bit_operations_syntax

section \<open>The input-file loader of efpmd (parse.c)\<close>

text \<open>
  A shallow embedding of \<^verbatim>\<open>efpmd/src/parse.c\<close>. A C string is the list of its
  characters up to, and without, the terminating NUL; a \<^verbatim>\<open>char *\<close> that may be NULL is
  a \<open>string option\<close>. \<^verbatim>\<open>error(...)\<close> terminates the process: every function that can
  reach it returns \<open>error + 'a\<close>, with \<open>Inl\<close> for the abort.
\<close>

subsection \<open>Characters (ctype.h in the C locale)\<close>

definition isspace :: "char \<Rightarrow> bool" where
  "isspace c = (c = CHR '' '' \<or> c = CHR 0x09 \<or> c = CHR 0x0A \<or> c = CHR 0x0B \<or>
                c = CHR 0x0C \<or> c = CHR 0x0D)"

definition isupper :: "char \<Rightarrow> bool" where
  "isupper c = (65 \<le> (of_char c :: nat) \<and> (of_char c :: nat) \<le> 90)"

definition tolower :: "char \<Rightarrow> char" where
  "tolower c = (if isupper c then char_of ((of_char c :: nat) + 32) else c)"

definition isdigit :: "char \<Rightarrow> bool" where
  "isdigit c = (48 \<le> (of_char c :: nat) \<and> (of_char c :: nat) \<le> 57)"

definition isxdigit :: "char \<Rightarrow> bool" where
  "isxdigit c = (isdigit c \<or> (97 \<le> (of_char (tolower c) :: nat) \<and> (of_char (tolower c) :: nat) \<le> 102))"

definition isalnum :: "char \<Rightarrow> bool" where
  "isalnum c = (isdigit c \<or> (97 \<le> (of_char (tolower c) :: nat) \<and> (of_char (tolower c) :: nat) \<le> 122))"

text \<open>
  Modelled from the spec: \<^verbatim>\<open>strneq\<close> is a macro of \<^verbatim>\<open>common.h\<close>, which is not among
  the sources. The spec reads it as a literal comparison of the first \<open>n\<close> characters
  (\<^verbatim>\<open>strncmp(a, b, n) == 0\<close>): on NUL-free lists, both strings agree on their first
  \<open>n\<close> characters, a string shorter than \<open>n\<close> ending where the other ends.
\<close>

definition strneq :: "string \<Rightarrow> string \<Rightarrow> nat \<Rightarrow> bool" where
  "strneq a b n = (take n a = take n b)"

text \<open>The C string held by a buffer of bytes: the bytes before the first NUL.\<close>

definition c_str :: "string \<Rightarrow> string" where
  "c_str bs = takeWhile (\<lambda>c. c \<noteq> CHR 0x00) bs"

subsection \<open>Line reader\<close>

text \<open>
  \<^verbatim>\<open>read_line\<close>: the unread bytes of the file stand for \<^verbatim>\<open>FILE *in\<close>. The loop
  collects bytes up to a newline or the end of the file; at the end of the file with
  nothing collected it returns NULL. The result is the buffer's bytes and the unread
  rest of the file.
\<close>

fun read_line_loop :: "string \<Rightarrow> string \<Rightarrow> (string \<times> string) option" where
  "read_line_loop [] acc = (if acc = [] then None else Some (acc, []))"
| "read_line_loop (ch # rest) acc =
     (if ch = CHR 0x0A then Some (acc, rest) else read_line_loop rest (acc @ [ch]))"

definition read_line :: "string \<Rightarrow> (string \<times> string) option" where
  "read_line bytes = read_line_loop bytes []"

record stream =
  buffer :: "string option"
  ptr :: "string option"
  inp :: string

text \<open>
  \<^verbatim>\<open>next_line\<close>: the new buffer is lower-cased up to its terminating NUL, and \<open>ptr\<close>
  points at its start. Every reader goes through \<open>ptr\<close> as a C string, so the
  buffer is kept as the C string it holds.
\<close>

definition next_line :: "stream \<Rightarrow> stream" where
  "next_line s =
     (case read_line (inp s) of
        None \<Rightarrow> \<lparr>buffer = None, ptr = None, inp = inp s\<rparr>
      | Some (bytes, rest) \<Rightarrow>
          \<lparr>buffer = Some (map tolower (c_str bytes)),
           ptr = Some (map tolower (c_str bytes)),
           inp = rest\<rparr>)"

definition skip_space :: "stream \<Rightarrow> stream" where
  "skip_space s =
     (case ptr s of
        None \<Rightarrow> s
      | Some p \<Rightarrow> s\<lparr>ptr := Some (dropWhile isspace p)\<rparr>)"

subsection \<open>Scalar parsers\<close>

text \<open>
  Each parser takes the cursor \<^verbatim>\<open>*str\<close> and returns \<open>None\<close> for \<^verbatim>\<open>false\<close>, or the
  value written to the output slot together with the new cursor.
\<close>

text \<open>
  Modelled from the spec: \<^verbatim>\<open>u_strndup\<close> is not among the sources; \<^verbatim>\<open>u_strndup(start, len)\<close>
  is taken to return a fresh copy of the \<open>len\<close> characters from \<open>start\<close> on, the
  characters counted by the loop of \<^verbatim>\<open>parse_string\<close>.
\<close>

definition parse_string :: "string option \<Rightarrow> (string \<times> string) option" where
  "parse_string str =
     (case str of
        None \<Rightarrow> None
      | Some s \<Rightarrow>
          (let p = dropWhile isspace s in
           case p of
             [] \<Rightarrow> None
           | c # q \<Rightarrow>
               if c = CHR 0x22 then
                 (case dropWhile (\<lambda>x. x \<noteq> CHR 0x22) q of
                    [] \<Rightarrow> None
                  | _ # r \<Rightarrow> Some (takeWhile (\<lambda>x. x \<noteq> CHR 0x22) q, r))
               else Some (takeWhile (\<lambda>x. \<not> isspace x) p, dropWhile (\<lambda>x. \<not> isspace x) p)))"

subsection \<open>The platform's numeric scanners\<close>

text \<open>
  Modelled from the spec: \<^verbatim>\<open>strtol\<close> and \<^verbatim>\<open>strtod\<close> belong to the C library, not to
  the sources; the spec calls them the platform's locale-independent numeric-literal
  scanner. What they consume follows ISO C (7.22.1.3 and 7.22.1.4, C locale): leading
  white space, an optional sign, and then the longest initial part of the expected form.
  \<open>None\<close> stands for "no conversion" (\<^verbatim>\<open>endptr == nptr\<close>).
\<close>

definition scan_sign :: "string \<Rightarrow> nat" where
  "scan_sign s = (case s of [] \<Rightarrow> 0 | c # _ \<Rightarrow> if c = CHR ''+'' \<or> c = CHR ''-'' then 1 else 0)"

text \<open>Digits with an optional radix point, at least one digit in all.\<close>

definition scan_mantissa :: "(char \<Rightarrow> bool) \<Rightarrow> string \<Rightarrow> nat option" where
  "scan_mantissa dig s =
     (let i = length (takeWhile dig s) in
      case drop i s of
        [] \<Rightarrow> if i = 0 then None else Some i
      | c # r \<Rightarrow>
          if c = CHR ''.'' then
            (let f = length (takeWhile dig r) in
             if i = 0 \<and> f = 0 then None else Some (i + 1 + f))
          else if i = 0 then None else Some i)"

text \<open>An optional exponent part: the marker, an optional sign, at least one digit.\<close>

definition scan_exponent :: "char \<Rightarrow> string \<Rightarrow> nat" where
  "scan_exponent mark s =
     (case s of
        [] \<Rightarrow> 0
      | c # r \<Rightarrow>
          if tolower c = mark then
            (let sg = scan_sign r; ds = length (takeWhile isdigit (drop sg r)) in
             if ds = 0 then 0 else 1 + sg + ds)
          else 0)"

text \<open>After \<^verbatim>\<open>nan\<close>: an optional parenthesised sequence of digits, letters and underscores.\<close>

definition scan_nan_chars :: "string \<Rightarrow> nat" where
  "scan_nan_chars s =
     (case s of
        [] \<Rightarrow> 0
      | c # r \<Rightarrow>
          if c = CHR ''('' then
            (let n = length (takeWhile (\<lambda>x. isalnum x \<or> x = CHR ''_'') r) in
             case drop n r of
               [] \<Rightarrow> 0
             | d # _ \<Rightarrow> if d = CHR '')'' then n + 2 else 0)
          else 0)"

text \<open>A keyword, given in lower case, starts the text; letters match in either case.\<close>

definition starts_with :: "string \<Rightarrow> string \<Rightarrow> bool" where
  "starts_with k s = (map tolower (take (length k) s) = k)"

definition scan_number :: "string \<Rightarrow> nat option" where
  "scan_number s =
     (if starts_with ''infinity'' s then Some 8
      else if starts_with ''inf'' s then Some 3
      else if starts_with ''nan'' s then Some (3 + scan_nan_chars (drop 3 s))
      else if starts_with ''0x'' s \<and> scan_mantissa isxdigit (drop 2 s) \<noteq> None then
        (case scan_mantissa isxdigit (drop 2 s) of
           None \<Rightarrow> None
         | Some m \<Rightarrow> Some (2 + m + scan_exponent CHR ''p'' (drop (2 + m) s)))
      else
        (case scan_mantissa isdigit s of
           None \<Rightarrow> None
         | Some m \<Rightarrow> Some (m + scan_exponent CHR ''e'' (drop m s))))"

text \<open>\<^verbatim>\<open>strtod\<close>: the text of the number it converts (sign included) and \<^verbatim>\<open>endptr\<close>.\<close>

definition strtod :: "string \<Rightarrow> (string \<times> string) option" where
  "strtod s =
     (let r = dropWhile isspace s; sg = scan_sign r in
      case scan_number (drop sg r) of
        None \<Rightarrow> None
      | Some n \<Rightarrow> Some (take (sg + n) r, drop (sg + n) r))"

definition digits_value :: "string \<Rightarrow> int" where
  "digits_value ds = foldl (\<lambda>a c. 10 * a + (int (of_char c) - 48)) 0 ds"

text \<open>
  \<^verbatim>\<open>strtol\<close> in base 10, for a 64-bit \<^verbatim>\<open>long\<close>: a value out of range is replaced by
  \<^verbatim>\<open>LONG_MAX\<close> or \<^verbatim>\<open>LONG_MIN\<close>.
\<close>

definition strtol :: "string \<Rightarrow> (int \<times> string) option" where
  "strtol s =
     (let r = dropWhile isspace s; sg = scan_sign r;
          ds = takeWhile isdigit (drop sg r);
          v = (if sg = 1 \<and> take 1 r = ''-'' then - digits_value ds else digits_value ds)
      in if ds = [] then None
         else Some (max (- (2 ^ 63)) (min (2 ^ 63 - 1) v), drop (sg + length ds) r))"

text \<open>
  The \<^verbatim>\<open>double\<close> type and the constants of headers that are not among the sources are
  parameters of the model: a type \<open>'d\<close> of doubles with the conversion of a scanned
  number's text, the multiplication and the comparison \<^verbatim>\<open>x > 0.0\<close>, the value of
  all-zero bytes, the unit constants \<^verbatim>\<open>1.0\<close>, \<^verbatim>\<open>1.0 / BOHR_RADIUS\<close> and \<^verbatim>\<open>FS_TO_AU\<close>, and
  the build-time string \<^verbatim>\<open>EFP_DATA_DIR\<close>.
\<close>

record 'd platform =
  d_of_text :: "string \<Rightarrow> 'd"
  d_mul :: "'d \<Rightarrow> 'd \<Rightarrow> 'd"
  d_gt_zero :: "'d \<Rightarrow> bool"
  d_zero :: 'd
  d_one :: 'd
  d_inv_bohr_radius :: 'd
  FS_TO_AU :: 'd
  EFP_DATA_DIR :: string

text \<open>
  \<^verbatim>\<open>int val = strtol(...)\<close>: the \<^verbatim>\<open>long\<close> is converted to a 32-bit \<^verbatim>\<open>int\<close>, keeping
  its low 32 bits.
\<close>

definition parse_int :: "string option \<Rightarrow> (32 word \<times> string) option" where
  "parse_int str =
     (case str of
        None \<Rightarrow> None
      | Some s \<Rightarrow>
          (case strtol s of
             None \<Rightarrow> None
           | Some (v, endptr) \<Rightarrow> Some (word_of_int v, endptr)))"

definition parse_double :: "'d platform \<Rightarrow> string option \<Rightarrow> ('d \<times> string) option" where
  "parse_double E str =
     (case str of
        None \<Rightarrow> None
      | Some s \<Rightarrow>
          (case strtod s of
             None \<Rightarrow> None
           | Some (txt, endptr) \<Rightarrow> Some (d_of_text E txt, endptr)))"

subsection \<open>Enumeration matcher\<close>

text \<open>
  \<^verbatim>\<open>parse_enum\<close>: \<open>names\<close> is the rest of the newline-separated table from the loop's
  pointer on, \<open>vals\<close> the array from \<^verbatim>\<open>values_ptr\<close> on. A step skips the newline it
  stands on, measures the name up to the next newline or the end, and compares; on a
  mismatch it moves to the next newline (\<^verbatim>\<open>strchr\<close>), or stops when there is none. A
  match past the last element of \<open>vals\<close> would copy from beyond the array; none of the
  tables below has more names than elements, and the model gives \<open>None\<close> there.
\<close>

definition not_newline :: "char \<Rightarrow> bool" where
  "not_newline c = (c \<noteq> CHR 0x0A)"

definition skip_newline :: "string \<Rightarrow> string" where
  "skip_newline p = (case p of [] \<Rightarrow> [] | c # r \<Rightarrow> if c = CHR 0x0A then r else p)"

function parse_enum_loop :: "string \<Rightarrow> string \<Rightarrow> 'v list \<Rightarrow> ('v \<times> string) option" where
  "parse_enum_loop str names vals =
     (if strneq str (skip_newline names) (length (takeWhile not_newline (skip_newline names)))
      then (case vals of
              [] \<Rightarrow> None
            | v # _ \<Rightarrow> Some (v, drop (length (takeWhile not_newline (skip_newline names))) str))
      else if dropWhile not_newline (skip_newline names) = [] then None
      else parse_enum_loop str (dropWhile not_newline (skip_newline names)) (tl vals))"
  by pat_completeness auto

lemma parse_enum_loop_decreases:
  assumes "\<not> strneq str (skip_newline names) (length (takeWhile not_newline (skip_newline names)))"
  shows "length (dropWhile not_newline (skip_newline names)) < length names"
proof -
  let ?p = "skip_newline names"
  have "takeWhile not_newline ?p \<noteq> []"
    using assms by (auto simp: strneq_def)
  then have "length (dropWhile not_newline ?p) < length ?p"
    by (metis length_append length_greater_0_conv
        less_add_same_cancel2 takeWhile_dropWhile_id)
  moreover have "length ?p \<le> length names"
    by (simp add: skip_newline_def split: list.splits)
  ultimately show ?thesis by simp
qed

termination parse_enum_loop
  by (relation "measure (\<lambda>(str, names, vals). length names)")
     (simp_all add: parse_enum_loop_decreases)

declare parse_enum_loop.simps [simp del]

definition parse_enum :: "string \<Rightarrow> string \<Rightarrow> 'v list \<Rightarrow> ('v \<times> string) option" where
  "parse_enum str names vals = parse_enum_loop str names vals"

datatype run_type = RUN_TYPE_SP | RUN_TYPE_GRAD | RUN_TYPE_HESS | RUN_TYPE_OPT | RUN_TYPE_MD

datatype efp_coord_type = EFP_COORD_TYPE_XYZABC | EFP_COORD_TYPE_POINTS | EFP_COORD_TYPE_ROTMAT

datatype efp_elec_damp = EFP_ELEC_DAMP_SCREEN | EFP_ELEC_DAMP_OVERLAP | EFP_ELEC_DAMP_OFF

datatype efp_disp_damp = EFP_DISP_DAMP_TT | EFP_DISP_DAMP_OVERLAP | EFP_DISP_DAMP_OFF

datatype efp_pol_damp = EFP_POL_DAMP_TT | EFP_POL_DAMP_OFF

datatype ensemble_type = ENSEMBLE_TYPE_NVE | ENSEMBLE_TYPE_NVT

definition run_type_names :: string where
  "run_type_names = ''sp\<newline>grad\<newline>hess\<newline>opt\<newline>md''"

definition run_type_values :: "run_type list" where
  "run_type_values = [RUN_TYPE_SP, RUN_TYPE_GRAD, RUN_TYPE_HESS, RUN_TYPE_OPT, RUN_TYPE_MD]"

definition parse_run_type :: "string \<Rightarrow> (run_type \<times> string) option" where
  "parse_run_type str = parse_enum str run_type_names run_type_values"

definition coord_names :: string where
  "coord_names = ''points\<newline>xyzabc\<newline>rotmat''"

definition coord_values :: "efp_coord_type list" where
  "coord_values = [EFP_COORD_TYPE_POINTS, EFP_COORD_TYPE_XYZABC, EFP_COORD_TYPE_ROTMAT]"

definition parse_coord :: "string \<Rightarrow> (efp_coord_type \<times> string) option" where
  "parse_coord str = parse_enum str coord_names coord_values"

definition units_names :: string where
  "units_names = ''bohr\<newline>angs''"

definition units_values :: "'d platform \<Rightarrow> 'd list" where
  "units_values E = [d_one E, d_inv_bohr_radius E]"

definition parse_units :: "'d platform \<Rightarrow> string \<Rightarrow> ('d \<times> string) option" where
  "parse_units E str = parse_enum str units_names (units_values E)"

definition elec_damp_names :: string where
  "elec_damp_names = ''screen\<newline>overlap\<newline>off''"

definition elec_damp_values :: "efp_elec_damp list" where
  "elec_damp_values = [EFP_ELEC_DAMP_SCREEN, EFP_ELEC_DAMP_OVERLAP, EFP_ELEC_DAMP_OFF]"

definition parse_elec_damp :: "string \<Rightarrow> (efp_elec_damp \<times> string) option" where
  "parse_elec_damp str = parse_enum str elec_damp_names elec_damp_values"

definition disp_damp_names :: string where
  "disp_damp_names = ''tt\<newline>overlap\<newline>off''"

definition disp_damp_values :: "efp_disp_damp list" where
  "disp_damp_values = [EFP_DISP_DAMP_TT, EFP_DISP_DAMP_OVERLAP, EFP_DISP_DAMP_OFF]"

definition parse_disp_damp :: "string \<Rightarrow> (efp_disp_damp \<times> string) option" where
  "parse_disp_damp str = parse_enum str disp_damp_names disp_damp_values"

definition pol_damp_names :: string where
  "pol_damp_names = ''tt\<newline>off''"

definition pol_damp_values :: "efp_pol_damp list" where
  "pol_damp_values = [EFP_POL_DAMP_TT, EFP_POL_DAMP_OFF]"

definition parse_pol_damp :: "string \<Rightarrow> (efp_pol_damp \<times> string) option" where
  "parse_pol_damp str = parse_enum str pol_damp_names pol_damp_values"

definition ensemble_names :: string where
  "ensemble_names = ''nve\<newline>nvt''"

definition ensemble_values :: "ensemble_type list" where
  "ensemble_values = [ENSEMBLE_TYPE_NVE, ENSEMBLE_TYPE_NVT]"

definition parse_ensemble :: "string \<Rightarrow> (ensemble_type \<times> string) option" where
  "parse_ensemble str = parse_enum str ensemble_names ensemble_values"

subsection \<open>The terms parser\<close>

text \<open>
  Modelled from the spec: \<^verbatim>\<open>enum efp_term\<close> is declared in the library's header, which
  is not among the sources; the spec calls its members the bits of a bit set over
  electrostatics, polarization, dispersion and exchange-repulsion.
\<close>

definition EFP_TERM_ELEC :: "32 word" where "EFP_TERM_ELEC = 1"
definition EFP_TERM_POL :: "32 word" where "EFP_TERM_POL = 2"
definition EFP_TERM_DISP :: "32 word" where "EFP_TERM_DISP = 4"
definition EFP_TERM_XR :: "32 word" where "EFP_TERM_XR = 8"

definition term_list :: "(string \<times> 32 word) list" where
  "term_list = [(''elec'', EFP_TERM_ELEC), (''pol'', EFP_TERM_POL),
                (''disp'', EFP_TERM_DISP), (''xr'', EFP_TERM_XR)]"

text \<open>The inner \<^verbatim>\<open>for\<close> loop: the first entry whose name starts the text, with its length.\<close>

fun match_term :: "(string \<times> 32 word) list \<Rightarrow> string \<Rightarrow> (nat \<times> 32 word) option" where
  "match_term [] p = None"
| "match_term ((nm, v) # l) p =
     (if strneq nm p (length nm) then Some (length nm, v) else match_term l p)"

lemma strneq_prefix: "strneq a b (length a) \<longleftrightarrow> prefix a b"
  by (auto simp: strneq_def prefix_def) (metis append_eq_conv_conj)

lemma strneq_prefix': "strneq b a (length a) \<longleftrightarrow> prefix a b"
  by (auto simp: strneq_def prefix_def) (metis append_eq_conv_conj)

lemma match_term_Some:
  "match_term l p = Some (n, v) \<Longrightarrow> \<exists>nm. (nm, v) \<in> set l \<and> n = length nm \<and> prefix nm p"
  by (induction l p rule: match_term.induct) (auto simp: strneq_prefix split: if_splits)

lemma match_term_list_consumes:
  assumes "match_term term_list p = Some (n, v)"
  shows "0 < n \<and> n \<le> length p"
proof -
  obtain nm where nm: "(nm, v) \<in> set term_list" "n = length nm" "prefix nm p"
    using match_term_Some [OF assms] by blast
  from nm(1) have "nm \<noteq> []" by (auto simp: term_list_def)
  with nm(2,3) show ?thesis by (auto dest: prefix_length_le)
qed

function parse_terms_loop :: "string \<Rightarrow> 32 word \<Rightarrow> (32 word \<times> string) option" where
  "parse_terms_loop p trms =
     (if p = [] then Some (trms, p)
      else (case match_term term_list p of
              None \<Rightarrow> None
            | Some (n, v) \<Rightarrow> parse_terms_loop (dropWhile isspace (drop n p)) (trms OR v)))"
  by pat_completeness auto

termination parse_terms_loop
proof (relation "measure (\<lambda>(p, trms). length p)", goal_cases)
  case 1
  show ?case by simp
next
  case (2 p trms x2 n v)
  then have "match_term term_list p = Some (n, v)" by simp
  then have "0 < n \<and> n \<le> length p"
    by (rule match_term_list_consumes)
  moreover have "length (dropWhile isspace (drop n p)) \<le> length (drop n p)"
    by (rule length_dropWhile_le)
  ultimately show ?case by simp arith
qed

declare parse_terms_loop.simps [simp del]

definition parse_terms :: "string \<Rightarrow> (32 word \<times> string) option" where
  "parse_terms str =
     (case parse_terms_loop str 0 of
        None \<Rightarrow> None
      | Some (trms, p) \<Rightarrow> if trms \<noteq> 0 then Some (trms, p) else None)"

subsection \<open>Validators\<close>

definition int_gt_zero :: "32 word \<Rightarrow> bool" where
  "int_gt_zero v = (0 < sint v)"

definition double_gt_zero :: "'d platform \<Rightarrow> 'd \<Rightarrow> bool" where
  "double_gt_zero E v = d_gt_zero E v"

subsection \<open>The configuration record\<close>

text \<open>
  Modelled from the spec: \<^verbatim>\<open>struct frag\<close> and \<^verbatim>\<open>struct config\<close> are declared in
  \<^verbatim>\<open>common.h\<close>, which is not among the sources. The fields are the ones \<^verbatim>\<open>parse.c\<close>
  reads and writes; the coordinate array has the capacity of the largest block (four
  rows of three values), the velocity array holds six values. The fragment array and
  its counter \<^verbatim>\<open>n_frags\<close> are one list, in declaration order.
\<close>

record 'd frag =
  name :: string
  coord :: "'d list"
  vel :: "'d list"

record 'd config =
  run_type :: run_type
  coord_type :: efp_coord_type
  units_factor :: 'd
  terms :: "32 word"
  elec_damp :: efp_elec_damp
  disp_damp :: efp_disp_damp
  pol_damp :: efp_pol_damp
  hess_delta :: 'd
  max_steps :: "32 word"
  print_step :: "32 word"
  target_temperature :: 'd
  time_step :: 'd
  ensemble_type :: ensemble_type
  thermostat_tau :: 'd
  opt_tol :: 'd
  fraglib_path :: "string option"
  userlib_path :: "string option"
  frags :: "'d frag list"

definition n_frags :: "'d config \<Rightarrow> nat" where
  "n_frags c = length (frags c)"

datatype error =
    UNABLE_TO_OPEN_INPUT_FILE
  | INCORRECT_VALUE_FOR_OPTION string
  | OPTION_VALUE_IS_OUT_OF_RANGE string
  | UNKNOWN_OPTION_IN_INPUT_FILE
  | UNABLE_TO_READ_FRAGMENT_NAME
  | INCORRECT_FRAGMENT_COORDINATES_FORMAT
  | INCORRECT_FRAGMENT_VELOCITIES_FORMAT
  | ONLY_ONE_OPTION_PER_LINE_IS_ALLOWED
  | AT_LEAST_ONE_FRAGMENT_MUST_BE_SPECIFIED
  | ASSERTION_FAILED
  | UNDEFINED_BEHAVIOUR

subsection \<open>The option table\<close>

text \<open>
  An entry of \<^verbatim>\<open>config_list\<close>. The parse function and the member offset of the C table
  are one field here: \<open>parse_fn\<close> is the parser writing into the member at
  \<^verbatim>\<open>(char *)config + offset\<close>, and \<open>check_fn\<close> reads the same member.
\<close>

record 'd config_entry =
  entry_name :: string
  default_value :: string
  parse_fn :: "string \<Rightarrow> 'd config \<Rightarrow> ('d config \<times> string) option"
  check_fn :: "('d config \<Rightarrow> bool) option"

definition at_member ::
  "(string \<Rightarrow> ('a \<times> string) option) \<Rightarrow> ('a \<Rightarrow> 'c \<Rightarrow> 'c) \<Rightarrow> string \<Rightarrow> 'c \<Rightarrow> ('c \<times> string) option" where
  "at_member parser store str c =
     (case parser str of None \<Rightarrow> None | Some (v, endptr) \<Rightarrow> Some (store v c, endptr))"

definition config_list :: "'d platform \<Rightarrow> 'd config_entry list" where
  "config_list E =
    [\<lparr>entry_name = ''run_type'', default_value = ''sp'',
      parse_fn = at_member parse_run_type (\<lambda>v c. c\<lparr>run_type := v\<rparr>), check_fn = None\<rparr>,
     \<lparr>entry_name = ''coord'', default_value = ''xyzabc'',
      parse_fn = at_member parse_coord (\<lambda>v c. c\<lparr>coord_type := v\<rparr>), check_fn = None\<rparr>,
     \<lparr>entry_name = ''units'', default_value = ''angs'',
      parse_fn = at_member (parse_units E) (\<lambda>v c. c\<lparr>units_factor := v\<rparr>), check_fn = None\<rparr>,
     \<lparr>entry_name = ''terms'', default_value = ''elec pol disp xr'',
      parse_fn = at_member parse_terms (\<lambda>v c. c\<lparr>terms := v\<rparr>), check_fn = None\<rparr>,
     \<lparr>entry_name = ''elec_damp'', default_value = ''screen'',
      parse_fn = at_member parse_elec_damp (\<lambda>v c. c\<lparr>elec_damp := v\<rparr>), check_fn = None\<rparr>,
     \<lparr>entry_name = ''disp_damp'', default_value = ''tt'',
      parse_fn = at_member parse_disp_damp (\<lambda>v c. c\<lparr>disp_damp := v\<rparr>), check_fn = None\<rparr>,
     \<lparr>entry_name = ''pol_damp'', default_value = ''tt'',
      parse_fn = at_member parse_pol_damp (\<lambda>v c. c\<lparr>pol_damp := v\<rparr>), check_fn = None\<rparr>,
     \<lparr>entry_name = ''hess_delta'', default_value = ''0.001'',
      parse_fn = at_member (\<lambda>str. parse_double E (Some str)) (\<lambda>v c. c\<lparr>hess_delta := v\<rparr>),
      check_fn = Some (\<lambda>c. double_gt_zero E (hess_delta c))\<rparr>,
     \<lparr>entry_name = ''max_steps'', default_value = ''100'',
      parse_fn = at_member (\<lambda>str. parse_int (Some str)) (\<lambda>v c. c\<lparr>max_steps := v\<rparr>),
      check_fn = Some (\<lambda>c. int_gt_zero (max_steps c))\<rparr>,
     \<lparr>entry_name = ''print_step'', default_value = ''1'',
      parse_fn = at_member (\<lambda>str. parse_int (Some str)) (\<lambda>v c. c\<lparr>print_step := v\<rparr>),
      check_fn = Some (\<lambda>c. int_gt_zero (print_step c))\<rparr>,
     \<lparr>entry_name = ''temperature'', default_value = ''300.0'',
      parse_fn = at_member (\<lambda>str. parse_double E (Some str)) (\<lambda>v c. c\<lparr>target_temperature := v\<rparr>),
      check_fn = Some (\<lambda>c. double_gt_zero E (target_temperature c))\<rparr>,
     \<lparr>entry_name = ''time_step'', default_value = ''1.0'',
      parse_fn = at_member (\<lambda>str. parse_double E (Some str)) (\<lambda>v c. c\<lparr>time_step := v\<rparr>),
      check_fn = Some (\<lambda>c. double_gt_zero E (time_step c))\<rparr>,
     \<lparr>entry_name = ''ensemble'', default_value = ''nve'',
      parse_fn = at_member parse_ensemble (\<lambda>v c. c\<lparr>ensemble_type := v\<rparr>), check_fn = None\<rparr>,
     \<lparr>entry_name = ''thermostat_tau'', default_value = ''1.0e3'',
      parse_fn = at_member (\<lambda>str. parse_double E (Some str)) (\<lambda>v c. c\<lparr>thermostat_tau := v\<rparr>),
      check_fn = Some (\<lambda>c. double_gt_zero E (thermostat_tau c))\<rparr>,
     \<lparr>entry_name = ''opt_tol'', default_value = ''1.0e-4'',
      parse_fn = at_member (\<lambda>str. parse_double E (Some str)) (\<lambda>v c. c\<lparr>opt_tol := v\<rparr>),
      check_fn = Some (\<lambda>c. double_gt_zero E (opt_tol c))\<rparr>,
     \<lparr>entry_name = ''fraglib_path'', default_value = EFP_DATA_DIR E,
      parse_fn = at_member (\<lambda>str. parse_string (Some str)) (\<lambda>v c. c\<lparr>fraglib_path := Some v\<rparr>),
      check_fn = None\<rparr>,
     \<lparr>entry_name = ''userlib_path'', default_value = ''.'',
      parse_fn = at_member (\<lambda>str. parse_string (Some str)) (\<lambda>v c. c\<lparr>userlib_path := Some v\<rparr>),
      check_fn = None\<rparr>]"

subsection \<open>Unit conversion\<close>

definition n_convert :: "efp_coord_type \<Rightarrow> nat" where
  "n_convert ct =
     (case ct of
        EFP_COORD_TYPE_XYZABC \<Rightarrow> 3
      | EFP_COORD_TYPE_POINTS \<Rightarrow> 9
      | EFP_COORD_TYPE_ROTMAT \<Rightarrow> 3)"

text \<open>The inner loop of \<^verbatim>\<open>convert_units\<close>, for \<open>j\<close> from 0 below the bound.\<close>

fun convert_coord :: "'d platform \<Rightarrow> 'd \<Rightarrow> nat \<Rightarrow> 'd list \<Rightarrow> 'd list" where
  "convert_coord E factor 0 a = a"
| "convert_coord E factor (Suc j) a =
     (let b = convert_coord E factor j a in b[j := d_mul E (b ! j) factor])"

definition convert_units :: "'d platform \<Rightarrow> 'd config \<Rightarrow> 'd config" where
  "convert_units E c =
     c\<lparr>time_step := d_mul E (FS_TO_AU E) (time_step c),
       thermostat_tau := d_mul E (FS_TO_AU E) (thermostat_tau c),
       frags := map (\<lambda>f. f\<lparr>coord := convert_coord E (units_factor c) (n_convert (coord_type c)) (coord f)\<rparr>)
                    (frags c)\<rparr>"

subsection \<open>Field dispatcher\<close>

text \<open>
  \<^verbatim>\<open>parse_field\<close>, the loop over the table: \<open>p\<close> is \<^verbatim>\<open>stream->ptr\<close>. The result is the
  cursor after the value and the record with the member written.
\<close>

fun parse_field_loop ::
  "'d config_entry list \<Rightarrow> string \<Rightarrow> 'd config \<Rightarrow> error + (string \<times> 'd config)" where
  "parse_field_loop [] p c = Inl UNKNOWN_OPTION_IN_INPUT_FILE"
| "parse_field_loop (e # es) p c =
     (if strneq (entry_name e) p (length (entry_name e)) then
        (case parse_fn e (dropWhile isspace (drop (length (entry_name e)) p)) c of
           None \<Rightarrow> Inl (INCORRECT_VALUE_FOR_OPTION (entry_name e))
         | Some (c', q) \<Rightarrow>
             (case check_fn e of
                None \<Rightarrow> Inr (q, c')
              | Some chk \<Rightarrow>
                  if \<not> chk c' then Inl (OPTION_VALUE_IS_OUT_OF_RANGE (entry_name e))
                  else Inr (q, c')))
      else parse_field_loop es p c)"

text \<open>
  \<^verbatim>\<open>parse_field\<close> reads through \<^verbatim>\<open>stream->ptr\<close> without a test; its only caller has a
  line in the buffer. On a NULL cursor the C code has no defined behaviour.
\<close>

definition parse_field :: "'d platform \<Rightarrow> stream \<Rightarrow> 'd config \<Rightarrow> error + (stream \<times> 'd config)" where
  "parse_field E s c =
     (case ptr s of
        None \<Rightarrow> Inl UNDEFINED_BEHAVIOUR
      | Some p \<Rightarrow>
          (case parse_field_loop (config_list E) p c of
             Inl e \<Rightarrow> Inl e
           | Inr (q, c') \<Rightarrow> Inr (s\<lparr>ptr := Some q\<rparr>, c')))"

subsection \<open>Fragment block parser\<close>

definition n_rows :: "efp_coord_type \<Rightarrow> nat" where
  "n_rows ct =
     (case ct of
        EFP_COORD_TYPE_XYZABC \<Rightarrow> 1
      | EFP_COORD_TYPE_POINTS \<Rightarrow> 3
      | EFP_COORD_TYPE_ROTMAT \<Rightarrow> 4)"

definition n_cols :: "efp_coord_type \<Rightarrow> nat" where
  "n_cols ct =
     (case ct of
        EFP_COORD_TYPE_XYZABC \<Rightarrow> 6
      | EFP_COORD_TYPE_POINTS \<Rightarrow> 3
      | EFP_COORD_TYPE_ROTMAT \<Rightarrow> 3)"

text \<open>
  The column loop: \<open>n\<close> calls of \<^verbatim>\<open>parse_double\<close> on the same cursor, writing the array
  from index \<open>idx\<close> on; \<open>None\<close> when one of them fails.
\<close>

fun parse_doubles ::
  "'d platform \<Rightarrow> nat \<Rightarrow> nat \<Rightarrow> string option \<Rightarrow> 'd list \<Rightarrow> ('d list \<times> string option) option" where
  "parse_doubles E 0 idx p a = Some (a, p)"
| "parse_doubles E (Suc n) idx p a =
     (case parse_double E p of
        None \<Rightarrow> None
      | Some (v, endptr) \<Rightarrow> parse_doubles E n (Suc idx) (Some endptr) (a[idx := v]))"

text \<open>The row loop: each row is a line of its own, left by \<^verbatim>\<open>next_line\<close> after its last value.\<close>

fun parse_rows ::
  "'d platform \<Rightarrow> nat \<Rightarrow> nat \<Rightarrow> nat \<Rightarrow> stream \<Rightarrow> 'd list \<Rightarrow> error + ('d list \<times> stream)" where
  "parse_rows E 0 cols idx s a = Inr (a, s)"
| "parse_rows E (Suc rows) cols idx s a =
     (case parse_doubles E cols idx (ptr s) a of
        None \<Rightarrow> Inl INCORRECT_FRAGMENT_COORDINATES_FORMAT
      | Some (a', p) \<Rightarrow> parse_rows E rows cols (idx + cols) (next_line (s\<lparr>ptr := p\<rparr>)) a')"

text \<open>
  The velocity row: six calls of \<^verbatim>\<open>parse_double\<close> on the line after the velocity
  keyword, and the \<^verbatim>\<open>next_line\<close> that leaves it.
\<close>

definition parse_velocity_row :: "'d platform \<Rightarrow> stream \<Rightarrow> 'd frag \<Rightarrow> error + ('d frag \<times> stream)" where
  "parse_velocity_row E s f =
     (case parse_doubles E 6 0 (ptr s) (vel f) of
        None \<Rightarrow> Inl INCORRECT_FRAGMENT_VELOCITIES_FORMAT
      | Some (v, p) \<Rightarrow> Inr (f\<lparr>vel := v\<rparr>, next_line (s\<lparr>ptr := p\<rparr>)))"

text \<open>The end of \<^verbatim>\<open>parse_frag\<close>: the optional velocity block after the coordinates.\<close>

definition parse_velocity :: "'d platform \<Rightarrow> stream \<Rightarrow> 'd frag \<Rightarrow> error + ('d frag \<times> stream)" where
  "parse_velocity E s f =
     (case ptr s of
        None \<Rightarrow> Inr (f, s)
      | Some _ \<Rightarrow>
          (let s1 = skip_space s in
           case ptr s1 of
             None \<Rightarrow> Inl UNDEFINED_BEHAVIOUR
           | Some q \<Rightarrow>
               if strneq q ''velocity'' (length ''velocity'') then
                 parse_velocity_row E (next_line s1) f
               else Inr (f, s1)))"

definition parse_frag ::
  "'d platform \<Rightarrow> stream \<Rightarrow> efp_coord_type \<Rightarrow> error + ('d frag \<times> stream)" where
  "parse_frag E s ct =
     (case parse_string (ptr s) of
        None \<Rightarrow> Inl UNABLE_TO_READ_FRAGMENT_NAME
      | Some (nm, p) \<Rightarrow>
          (case parse_rows E (n_rows ct) (n_cols ct) 0 (next_line (s\<lparr>ptr := Some p\<rparr>))
                  (replicate 12 (d_zero E)) of
             Inl e \<Rightarrow> Inl e
           | Inr (a, s1) \<Rightarrow>
               parse_velocity E s1 \<lparr>name = nm, coord = a, vel = replicate 6 (d_zero E)\<rparr>))"

subsection \<open>Configuration loader\<close>

text \<open>
  \<^verbatim>\<open>memset(config, 0, sizeof(struct config))\<close>: numbers are zero, pointers NULL, the
  fragment array empty. Which enumerator of each \<^verbatim>\<open>enum\<close> is zero is declared in headers
  that are not among the sources; the defaults below overwrite every such member.
\<close>

definition zero_config :: "'d platform \<Rightarrow> 'd config" where
  "zero_config E =
     \<lparr>run_type = RUN_TYPE_SP, coord_type = EFP_COORD_TYPE_XYZABC, units_factor = d_zero E,
      terms = 0, elec_damp = EFP_ELEC_DAMP_SCREEN, disp_damp = EFP_DISP_DAMP_TT,
      pol_damp = EFP_POL_DAMP_TT, hess_delta = d_zero E, max_steps = 0, print_step = 0,
      target_temperature = d_zero E, time_step = d_zero E, ensemble_type = ENSEMBLE_TYPE_NVE,
      thermostat_tau = d_zero E, opt_tol = d_zero E, fraglib_path = None, userlib_path = None,
      frags = []\<rparr>"

text \<open>
  The loop of \<^verbatim>\<open>set_config_defaults\<close>. \<^verbatim>\<open>strncpy\<close> into the 128-byte buffer leaves a
  default of 128 characters or more without its terminating NUL, and the parser would
  read past the buffer. A failed \<^verbatim>\<open>assert(res)\<close> aborts.
\<close>

fun set_defaults_loop :: "'d config_entry list \<Rightarrow> 'd config \<Rightarrow> error + 'd config" where
  "set_defaults_loop [] c = Inr c"
| "set_defaults_loop (e # es) c =
     (if 128 \<le> length (default_value e) then Inl UNDEFINED_BEHAVIOUR
      else (case parse_fn e (default_value e) c of
              None \<Rightarrow> Inl ASSERTION_FAILED
            | Some (c', _) \<Rightarrow> set_defaults_loop es c'))"

definition set_config_defaults :: "'d platform \<Rightarrow> error + 'd config" where
  "set_config_defaults E = set_defaults_loop (config_list E) (zero_config E)"

text \<open>
  One pass through the body of the \<^verbatim>\<open>while (stream.buffer)\<close> loop of \<^verbatim>\<open>parse_config\<close>,
  for a stream with a line in its buffer.
\<close>

definition config_step :: "'d platform \<Rightarrow> stream \<Rightarrow> 'd config \<Rightarrow> error + (stream \<times> 'd config)" where
  "config_step E s c =
     (case ptr s of
        None \<Rightarrow> Inl UNDEFINED_BEHAVIOUR
      | Some p \<Rightarrow>
          if (case p of [] \<Rightarrow> False | ch # _ \<Rightarrow> ch = CHR ''#'') then Inr (next_line s, c)
          else
            (let s1 = skip_space s in
             case ptr s1 of
               None \<Rightarrow> Inl UNDEFINED_BEHAVIOUR
             | Some q \<Rightarrow>
                 if q = [] then Inr (next_line s1, c)
                 else if strneq q ''fragment'' (length ''fragment'') then
                   (case parse_frag E (s1\<lparr>ptr := Some (drop (length ''fragment'') q)\<rparr>)
                           (coord_type c) of
                      Inl e \<Rightarrow> Inl e
                    | Inr (f, s2) \<Rightarrow> Inr (s2, c\<lparr>frags := frags c @ [f]\<rparr>))
                 else
                   (case parse_field E s1 c of
                      Inl e \<Rightarrow> Inl e
                    | Inr (s2, c') \<Rightarrow>
                        (let s3 = skip_space s2 in
                         case ptr s3 of
                           None \<Rightarrow> Inl UNDEFINED_BEHAVIOUR
                         | Some r \<Rightarrow>
                             if r \<noteq> [] then Inl ONLY_ONE_OPTION_PER_LINE_IS_ALLOWED
                             else Inr (next_line s3, c')))))"

text \<open>What is left to read: the unread bytes, and the line in the buffer.\<close>

definition unread :: "stream \<Rightarrow> nat" where
  "unread s = length (inp s) + (case buffer s of None \<Rightarrow> 0 | Some _ \<Rightarrow> 1)"

lemma read_line_loop_None: "read_line_loop bytes acc = None \<longleftrightarrow> bytes = [] \<and> acc = []"
  by (induction bytes acc rule: read_line_loop.induct) auto

lemma read_line_loop_rest:
  "read_line_loop bytes acc = Some (l, rest) \<Longrightarrow>
     length rest \<le> length bytes \<and> (bytes \<noteq> [] \<longrightarrow> length rest < length bytes)"
  by (induction bytes acc rule: read_line_loop.induct) (auto split: if_splits)

lemma unread_next_line: "unread (next_line s) \<le> length (inp s)"
proof (cases "read_line (inp s)")
  case None
  then show ?thesis
    by (simp add: unread_def next_line_def read_line_def read_line_loop_None)
next
  case (Some a)
  obtain l rest where a: "a = (l, rest)" by (cases a)
  from Some a have "inp s \<noteq> []"
    by (auto simp: read_line_def)
  with Some a have "length rest < length (inp s)"
    using read_line_loop_rest [of "inp s" "[]" l rest] by (simp add: read_line_def)
  with Some a show ?thesis
    by (simp add: unread_def next_line_def)
qed

lemma unread_next_line_le: "unread (next_line s) \<le> unread s"
  using unread_next_line [of s] by (simp add: unread_def)

lemma unread_next_line_less: "buffer s \<noteq> None \<Longrightarrow> unread (next_line s) < unread s"
  using unread_next_line [of s] by (auto simp: unread_def)

lemma next_line_ptr_update [simp]: "next_line (s\<lparr>ptr := p\<rparr>) = next_line s"
  by (simp add: next_line_def split: option.splits)

lemma skip_space_fields [simp]:
  "buffer (skip_space s) = buffer s" "inp (skip_space s) = inp s"
  by (simp_all add: skip_space_def split: option.splits)

lemma unread_skip_space [simp]: "unread (skip_space s) = unread s"
  by (simp add: unread_def)

lemma unread_ptr_update [simp]: "unread (s\<lparr>ptr := p\<rparr>) = unread s"
  by (simp add: unread_def)

lemma next_line_skip_space [simp]: "next_line (skip_space s) = next_line s"
  by (simp add: next_line_def split: option.splits)

lemma unread_parse_rows:
  "parse_rows E rows cols idx s a = Inr (a', s') \<Longrightarrow> unread s' \<le> unread s"
proof (induction rows arbitrary: idx s a)
  case 0
  then show ?case by simp
next
  case (Suc rows)
  then show ?case
    by (auto split: option.splits dest!: Suc.IH intro: order_trans [OF _ unread_next_line_le])
qed

lemma unread_parse_velocity:
  "parse_velocity E s f = Inr (f', s') \<Longrightarrow> unread s' \<le> unread s"
  by (auto simp: parse_velocity_def parse_velocity_row_def Let_def
      split: option.splits if_splits
      intro: order_trans [OF unread_next_line_le] unread_next_line_le)

lemma unread_parse_frag:
  assumes "parse_frag E s ct = Inr (f, s')"
  shows "unread s' \<le> length (inp s)"
proof -
  from assms obtain nm a s1 where
    rows: "parse_rows E (n_rows ct) (n_cols ct) 0 (next_line s) (replicate 12 (d_zero E)) = Inr (a, s1)"
    and v: "parse_velocity E s1 \<lparr>name = nm, coord = a, vel = replicate 6 (d_zero E)\<rparr> = Inr (f, s')"
    by (auto simp: parse_frag_def split: option.splits sum.splits)
  have "unread s' \<le> unread s1" using v by (rule unread_parse_velocity)
  also have "\<dots> \<le> unread (next_line s)" using rows by (rule unread_parse_rows)
  also have "\<dots> \<le> length (inp s)" by (rule unread_next_line)
  finally show ?thesis .
qed

lemma parse_field_fields:
  "parse_field E s c = Inr (s', c') \<Longrightarrow> buffer s' = buffer s \<and> inp s' = inp s"
  by (auto simp: parse_field_def split: option.splits sum.splits)

lemma unread_config_step:
  assumes "config_step E s c = Inr (s', c')" and "buffer s \<noteq> None"
  shows "unread s' < unread s"
proof -
  have less: "unread (next_line s) < unread s"
    using assms(2) by (rule unread_next_line_less)
  have frag: "unread t < unread s" if "parse_frag E (skip_space s\<lparr>ptr := q\<rparr>) ct = Inr (f, t)" for t q ct f
  proof -
    have "unread t \<le> length (inp s)"
      using unread_parse_frag [OF that] by simp
    then show ?thesis using assms(2) by (auto simp: unread_def)
  qed
  have field: "unread (next_line (skip_space t)) < unread s"
    if "parse_field E (skip_space s) c = Inr (t, c')" for t c'
  proof -
    from parse_field_fields [OF that] have "buffer t = buffer s" "inp t = inp s" by simp_all
    then have "unread t = unread s" "buffer t \<noteq> None"
      using assms(2) by (simp_all add: unread_def)
    then show ?thesis using unread_next_line_less [of t] by simp
  qed
  from assms(1) show ?thesis
    by (auto simp: config_step_def Let_def less split: option.splits if_splits sum.splits
        dest: frag field)
qed

function read_loop :: "'d platform \<Rightarrow> stream \<Rightarrow> 'd config \<Rightarrow> error + 'd config" where
  "read_loop E s c =
     (if buffer s = None then Inr c
      else (case config_step E s c of
              Inl e \<Rightarrow> Inl e
            | Inr (s', c') \<Rightarrow> read_loop E s' c'))"
  by pat_completeness auto

termination read_loop
  by (relation "measure (\<lambda>(E, s, c). unread s)") (auto intro: unread_config_step)

declare read_loop.simps [simp del]

text \<open>
  \<^verbatim>\<open>parse_config\<close>: the argument is what \<^verbatim>\<open>fopen\<close> gives, \<open>None\<close> when the file cannot be
  opened and its bytes otherwise. The defaults are set before the file is opened.
\<close>

definition parse_config :: "'d platform \<Rightarrow> string option \<Rightarrow> error + 'd config" where
  "parse_config E file =
     (case set_config_defaults E of
        Inl e \<Rightarrow> Inl e
      | Inr c0 \<Rightarrow>
          (case file of
             None \<Rightarrow> Inl UNABLE_TO_OPEN_INPUT_FILE
           | Some bytes \<Rightarrow>
               (case read_loop E (next_line \<lparr>buffer = None, ptr = None, inp = bytes\<rparr>) c0 of
                  Inl e \<Rightarrow> Inl e
                | Inr c \<Rightarrow>
                    if n_frags c < 1 then Inl AT_LEAST_ONE_FRAGMENT_MUST_BE_SPECIFIED
                    else Inr (convert_units E c))))"

subsection \<open>A sample platform\<close>

text \<open>
  For running the model on concrete files: doubles are exact rationals, the text of a
  decimal number converts to its value (any other text to 0), and the constants,
  whose header is not among the sources, get the sample values
  \<^verbatim>\<open>BOHR_RADIUS\<close> = 0.52917721092 and \<^verbatim>\<open>FS_TO_AU\<close> = 1.0 / 2.41888432650212e-2.
\<close>

definition decimal_value :: "string \<Rightarrow> rat" where
  "decimal_value t =
     (let u = drop (scan_sign t) t;
          ip = takeWhile isdigit u;
          r1 = dropWhile isdigit u;
          fp = (if take 1 r1 = ''.'' then takeWhile isdigit (drop 1 r1) else []);
          r2 = (if take 1 r1 = ''.'' then dropWhile isdigit (drop 1 r1) else r1);
          ex = (if map tolower (take 1 r2) = ''e''
                then (if take 1 (drop 1 r2) = ''-'' then - 1 else 1) *
                     digits_value (takeWhile isdigit (drop (1 + scan_sign (drop 1 r2)) r2))
                else 0);
          m = of_int (digits_value (ip @ fp)) / 10 ^ length fp
      in (if take 1 t = ''-'' then - 1 else 1) * m *
         (if 0 \<le> ex then 10 ^ nat ex else 1 / 10 ^ nat (- ex)))"

definition sample_platform :: "rat platform" where
  "sample_platform =
     \<lparr>d_of_text = decimal_value, d_mul = (\<lambda>a b. a * b), d_gt_zero = (\<lambda>a. 0 < a),
      d_zero = 0, d_one = 1,
      d_inv_bohr_radius = 1 / (52917721092 / 100000000000),
      FS_TO_AU = 1 / (241888432650212 / 10000000000000000),
      EFP_DATA_DIR = ''/usr/local/share/libefp''\<rparr>"

subsection \<open>The lines of a file\<close>

text \<open>
  The lines the loader sees, in order: the buffers of successive calls of
  \<^verbatim>\<open>next_line\<close>, up to the end of the file.
\<close>

function stream_lines :: "stream \<Rightarrow> string list" where
  "stream_lines s = (case buffer s of None \<Rightarrow> [] | Some l \<Rightarrow> l # stream_lines (next_line s))"
  by pat_completeness auto

termination stream_lines
  by (relation "measure unread") (auto intro: unread_next_line_less)

declare stream_lines.simps [simp del]

text \<open>The stream of \<^verbatim>\<open>parse_config\<close> after its first \<^verbatim>\<open>next_line\<close>.\<close>

definition first_line :: "string \<Rightarrow> stream" where
  "first_line bytes = next_line \<lparr>buffer = None, ptr = None, inp = bytes\<rparr>"

definition file_lines :: "string \<Rightarrow> string list" where
  "file_lines bytes = stream_lines (first_line bytes)"

text \<open>The tests of the loop on a line: a comment, and the fragment keyword.\<close>

definition is_comment_line :: "string \<Rightarrow> bool" where
  "is_comment_line l = (case l of [] \<Rightarrow> False | ch # _ \<Rightarrow> ch = CHR ''#'')"

definition is_fragment_line :: "string \<Rightarrow> bool" where
  "is_fragment_line l =
     (\<not> is_comment_line l \<and> strneq (dropWhile isspace l) ''fragment'' (length ''fragment''))"

text \<open>An option line: neither a comment, nor blank, nor a fragment keyword line.\<close>

definition is_option_line :: "string \<Rightarrow> bool" where
  "is_option_line l =
     (\<not> is_comment_line l \<and> dropWhile isspace l \<noteq> [] \<and>
      \<not> strneq (dropWhile isspace l) ''fragment'' (length ''fragment''))"

subsection \<open>The enumeration matcher as the spec words it\<close>

text \<open>
  Modelled from the spec's sentence on the enumeration matcher, for comparison with
  \<open>parse_enum\<close>: the registered names are the pieces of the table between newlines,
  each paired with the value at its position; the match is the longest registered name
  that is a literal prefix of the input, it yields that entry's value, and the cursor
  moves past the name.
\<close>

fun split_names :: "string \<Rightarrow> string \<Rightarrow> string list" where
  "split_names [] acc = [acc]"
| "split_names (c # cs) acc =
     (if c = CHR 0x0A then acc # split_names cs [] else split_names cs (acc @ [c]))"

fun longest_entry :: "(string \<times> 'v) list \<Rightarrow> (string \<times> 'v) option" where
  "longest_entry [] = None"
| "longest_entry (x # xs) =
     (case longest_entry xs of
        None \<Rightarrow> Some x
      | Some y \<Rightarrow> if length (fst x) < length (fst y) then Some y else Some x)"

definition spec_longest_prefix_match :: "string \<Rightarrow> string \<Rightarrow> 'v list \<Rightarrow> ('v \<times> string) option" where
  "spec_longest_prefix_match str names vals =
     (case longest_entry (filter (\<lambda>(n, v). prefix n str) (zip (split_names names []) vals)) of
        None \<Rightarrow> None
      | Some (n, v) \<Rightarrow> Some (v, drop (length n) str))"

subsection \<open>The language of the terms parser\<close>

text \<open>
  Modelled from the spec's sentence on the terms parser, for comparison with
  \<open>parse_terms\<close>: the tokens of a text are its maximal runs of characters other than
  white space, and a text is a white-space-separated sequence of keywords when it has a
  token and each token is a keyword.
\<close>

fun split_space :: "string \<Rightarrow> string \<Rightarrow> string list" where
  "split_space [] acc = (if acc = [] then [] else [acc])"
| "split_space (c # cs) acc =
     (if isspace c then (if acc = [] then split_space cs [] else acc # split_space cs [])
      else split_space cs (acc @ [c]))"

definition spec_terms_accepts :: "string \<Rightarrow> bool" where
  "spec_terms_accepts str =
     (split_space str [] \<noteq> [] \<and> list_all (\<lambda>t. t \<in> set (map fst term_list)) (split_space str []))"

text \<open>
  What the loop of \<open>parse_terms\<close> walks through: entries of its list, each with the
  white space that follows it in the text.
\<close>

definition keyword_run :: "((string \<times> 32 word) \<times> string) list \<Rightarrow> bool" where
  "keyword_run ks = list_all (\<lambda>(e, w). e \<in> set term_list \<and> list_all isspace w) ks"

definition keyword_text :: "((string \<times> 32 word) \<times> string) list \<Rightarrow> string" where
  "keyword_text ks = concat (map (\<lambda>(e, w). fst e @ w) ks)"

definition keyword_bits :: "32 word \<Rightarrow> ((string \<times> 32 word) \<times> string) list \<Rightarrow> 32 word" where
  "keyword_bits a ks = foldl (\<lambda>a (e, w). a OR snd e) a ks"

subsection \<open>Defaults\<close>

text \<open>
  Modelled from the spec's list of recognized options: the record that holds every
  option's default.
\<close>

definition default_config :: "'d platform \<Rightarrow> 'd config" where
  "default_config E =
     \<lparr>run_type = RUN_TYPE_SP, coord_type = EFP_COORD_TYPE_XYZABC,
      units_factor = d_inv_bohr_radius E,
      terms = EFP_TERM_ELEC OR EFP_TERM_POL OR EFP_TERM_DISP OR EFP_TERM_XR,
      elec_damp = EFP_ELEC_DAMP_SCREEN, disp_damp = EFP_DISP_DAMP_TT,
      pol_damp = EFP_POL_DAMP_TT, hess_delta = d_of_text E ''0.001'', max_steps = 100,
      print_step = 1, target_temperature = d_of_text E ''300.0'',
      time_step = d_of_text E ''1.0'', ensemble_type = ENSEMBLE_TYPE_NVE,
      thermostat_tau = d_of_text E ''1.0e3'', opt_tol = d_of_text E ''1.0e-4'',
      fraglib_path = Some (EFP_DATA_DIR E), userlib_path = Some ''.'', frags = []\<rparr>"






subsection \<open>Coordinate arrays\<close>

text \<open>Every fragment of the record has its coordinate array of twelve values.\<close>

definition coords_allocated :: "'d config \<Rightarrow> bool" where
  "coords_allocated c = list_all (\<lambda>f. length (coord f) = 12) (frags c)"

subsection \<open>Strings without upper-case characters\<close>

definition lower_case :: "string \<Rightarrow> bool" where
  "lower_case str = list_all (\<lambda>c. \<not> isupper c) str"

text \<open>The text at the cursor of a stream has no upper-case character.\<close>

definition lower_cursor :: "stream \<Rightarrow> bool" where
  "lower_cursor s = (case ptr s of None \<Rightarrow> True | Some p \<Rightarrow> lower_case p)"

text \<open>
  The strings of a record: every fragment name and the user library path have no
  upper-case character; the fragment library path has none, or is what \<open>parse_string\<close>
  takes from \<^verbatim>\<open>EFP_DATA_DIR\<close>.
\<close>

definition lower_strings :: "'d platform \<Rightarrow> 'd config \<Rightarrow> bool" where
  "lower_strings E c =
     (list_all (\<lambda>f. lower_case (name f)) (frags c) \<and>
      (case userlib_path c of None \<Rightarrow> False | Some p \<Rightarrow> lower_case p) \<and>
      (case fraglib_path c of
         None \<Rightarrow> False
       | Some p \<Rightarrow>
           lower_case p \<or>
           map_option fst (parse_string (Some (EFP_DATA_DIR E))) = Some p))"

subsection \<open>Empty names\<close>

text \<open>A text holds the empty quoted string: two adjacent double quotes.\<close>

definition empty_quotes :: "string \<Rightarrow> bool" where
  "empty_quotes str = sublist [CHR 0x22, CHR 0x22] str"

text \<open>Neither the text at the cursor nor the unread bytes hold the empty quoted string.\<close>

definition quotes_filled :: "stream \<Rightarrow> bool" where
  "quotes_filled s =
     ((case ptr s of None \<Rightarrow> True | Some p \<Rightarrow> \<not> empty_quotes p) \<and> \<not> empty_quotes (inp s))"

text \<open>Every fragment of the record has a name of at least one character.\<close>

definition names_given :: "'d config \<Rightarrow> bool" where
  "names_given c = list_all (\<lambda>f. name f \<noteq> []) (frags c)"

subsection \<open>Rows of values\<close>

text \<open>
  The values a line holds as a row of \<open>n\<close> columns: what \<open>n\<close> successive calls of
  \<^verbatim>\<open>parse_double\<close> read from it, and \<open>None\<close> when the line runs out of values.
\<close>

fun row_values :: "'d platform \<Rightarrow> nat \<Rightarrow> string option \<Rightarrow> 'd list option" where
  "row_values E 0 p = Some []"
| "row_values E (Suc n) p =
     (case parse_double E p of
        None \<Rightarrow> None
      | Some (v, q) \<Rightarrow>
          (case row_values E n (Some q) of None \<Rightarrow> None | Some vs \<Rightarrow> Some (v # vs)))"

subsection \<open>The representation of each block\<close>

text \<open>
  The coordinate representation the record holds at each fragment keyword line that the
  loop of \<^verbatim>\<open>parse_config\<close> reaches, in the order of the lines: the representation
  \<^verbatim>\<open>parse_frag\<close> is called with for the block of that line.
\<close>

function block_types :: "'d platform \<Rightarrow> stream \<Rightarrow> 'd config \<Rightarrow> efp_coord_type list" where
  "block_types E s c =
     (if buffer s = None then []
      else (case config_step E s c of
              Inl e \<Rightarrow> []
            | Inr (s', c') \<Rightarrow>
                (if (case ptr s of None \<Rightarrow> False | Some l \<Rightarrow> is_fragment_line l)
                 then [coord_type c] else []) @ block_types E s' c'))"
  by pat_completeness auto

termination block_types
  by (relation "measure (\<lambda>(E, s, c). unread s)") (auto intro: unread_config_step)

declare block_types.simps [simp del]

section \<open>Properties\<close>

subsection \<open>At least one fragment\<close>

lemma config_list_frags:
  assumes "e \<in> set (config_list E)" and "parse_fn e str c = Some (c', r)"
  shows "frags c' = frags c"
  using assms unfolding config_list_def
  by (auto simp: at_member_def split: option.splits)

lemma parse_field_loop_frags:
  "parse_field_loop es p c = Inr (q, c') \<Longrightarrow> set es \<subseteq> set (config_list E) \<Longrightarrow> frags c' = frags c"
proof (induction es)
  case Nil
  then show ?case by simp
next
  case (Cons e es)
  then show ?case
    by (auto split: if_splits option.splits dest: config_list_frags)
qed

lemma parse_field_frame:
  assumes "parse_field E s c = Inr (s', c')"
  shows "frags c' = frags c \<and> next_line s' = next_line s"
proof -
  from assms obtain p q where "ptr s = Some p" "parse_field_loop (config_list E) p c = Inr (q, c')"
    "s' = s\<lparr>ptr := Some q\<rparr>"
    by (auto simp: parse_field_def split: option.splits sum.splits)
  then show ?thesis
    using parse_field_loop_frags [of "config_list E" p c q c' E] by simp
qed

lemma config_step_other_line:
  assumes "config_step E s c = Inr (s', c')" and "ptr s = Some l" and "\<not> is_fragment_line l"
  shows "s' = next_line s \<and> frags c' = frags c"
  using assms
  by (auto simp: config_step_def is_fragment_line_def is_comment_line_def skip_space_def Let_def
      split: option.splits if_splits sum.splits list.splits dest: parse_field_frame)

lemma config_step_fragment_line:
  assumes "ptr s = Some p" and "is_fragment_line p"
  shows "config_step E s c =
           (case parse_frag E (s\<lparr>ptr := Some (drop (length ''fragment'') (dropWhile isspace p))\<rparr>)
                   (coord_type c) of
              Inl e \<Rightarrow> Inl e
            | Inr (f, s') \<Rightarrow> Inr (s', c\<lparr>frags := frags c @ [f]\<rparr>))"
proof -
  from assms(2) have nc: "\<not> (case p of [] \<Rightarrow> False | ch # _ \<Rightarrow> ch = CHR ''#'')"
    and fr: "strneq (dropWhile isspace p) ''fragment'' (length ''fragment'')"
    by (simp_all add: is_fragment_line_def is_comment_line_def)
  have nb: "dropWhile isspace p \<noteq> []"
  proof
    assume "dropWhile isspace p = []"
    with fr show False by (simp add: strneq_def)
  qed
  from assms(1) have sk: "skip_space s = s\<lparr>ptr := Some (dropWhile isspace p)\<rparr>"
    by (simp add: skip_space_def)
  show ?thesis
    unfolding config_step_def Let_def sk
    using nc nb fr by (auto simp add: assms(1))
qed

lemma next_line_ptr_buffer: "ptr (next_line s) = buffer (next_line s)"
  by (simp add: next_line_def split: option.splits)

lemma read_loop_no_fragment:
  "ptr s = buffer s \<Longrightarrow> list_all (\<lambda>l. \<not> is_fragment_line l) (stream_lines s) \<Longrightarrow>
   read_loop E s c = Inr c' \<Longrightarrow> frags c' = frags c"
proof (induction E s c rule: read_loop.induct)
  case (1 E s c)
  show ?case
  proof (cases "buffer s")
    case None
    with "1.prems" show ?thesis by (simp add: read_loop.simps)
  next
    case (Some l)
    with "1.prems" obtain s1 c1 where step: "config_step E s c = Inr (s1, c1)"
      and rest: "read_loop E s1 c1 = Inr c'"
      by (auto simp: read_loop.simps [of E s c] split: sum.splits)
    from Some "1.prems"(1,2) have l: "ptr s = Some l" "\<not> is_fragment_line l"
      and tl: "list_all (\<lambda>l. \<not> is_fragment_line l) (stream_lines (next_line s))"
      by (simp_all add: stream_lines.simps [of s])
    from config_step_other_line [OF step l] have s1: "s1 = next_line s" and c1: "frags c1 = frags c"
      by simp_all
    have "frags c' = frags c1"
      using "1.IH" [OF _ step refl] Some rest tl s1
      by (simp add: next_line_ptr_buffer)
    with c1 show ?thesis by simp
  qed
qed

lemma set_defaults_loop_frags:
  "set_defaults_loop es c = Inr c' \<Longrightarrow> set es \<subseteq> set (config_list E) \<Longrightarrow> frags c' = frags c"
proof (induction es arbitrary: c)
  case Nil
  then show ?case by simp
next
  case (Cons e es)
  then show ?case
    by (auto split: if_splits option.splits dest: config_list_frags)
qed

lemma set_config_defaults_frags: "set_config_defaults E = Inr c0 \<Longrightarrow> frags c0 = []"
  using set_defaults_loop_frags [of "config_list E" "zero_config E" c0 E]
  by (simp add: set_config_defaults_def zero_config_def)

lemma parse_config_InrE:
  assumes "parse_config E file = Inr cfg"
  obtains bytes c0 c where "file = Some bytes" and "set_config_defaults E = Inr c0"
    and "read_loop E (first_line bytes) c0 = Inr c" and "1 \<le> n_frags c"
    and "cfg = convert_units E c"
proof -
  from assms obtain c0 where c0: "set_config_defaults E = Inr c0"
    by (cases "set_config_defaults E") (auto simp: parse_config_def)
  with assms obtain bytes where b: "file = Some bytes"
    by (cases "file") (auto simp: parse_config_def)
  with assms c0 obtain c where c: "read_loop E (first_line bytes) c0 = Inr c"
    by (cases "read_loop E (first_line bytes) c0") (auto simp: parse_config_def first_line_def)
  with assms c0 b have "1 \<le> n_frags c" "cfg = convert_units E c"
    by (auto simp: parse_config_def first_line_def split: if_splits)
  with b c0 c show ?thesis by (rule that)
qed

lemma map_sum_InrD: "map_sum f g x = Inr u \<Longrightarrow> \<exists>y. x = Inr y"
  by (cases x) auto

text \<open>
  C4: the loader never returns a configuration with zero fragments. A file none of
  whose lines starts a fragment block is never loaded; when all its lines are read
  without an abort, the load fails with the at-least-one-fragment error, however many
  option lines it holds.
\<close>

theorem C4_at_least_one_fragment:
  "(parse_config E file = Inr cfg \<longrightarrow> 1 \<le> n_frags cfg) \<and>
   (list_all (\<lambda>l. \<not> is_fragment_line l) (file_lines bytes) \<longrightarrow>
      (\<exists>e. parse_config E (Some bytes) = Inl e) \<and>
      (\<forall>c0 c. set_config_defaults E = Inr c0 \<longrightarrow> read_loop E (first_line bytes) c0 = Inr c \<longrightarrow>
         parse_config E (Some bytes) = Inl AT_LEAST_ONE_FRAGMENT_MUST_BE_SPECIFIED))"
proof (intro conjI impI allI)
  assume "parse_config E file = Inr cfg"
  then obtain c where "1 \<le> n_frags c" "cfg = convert_units E c"
    by (rule parse_config_InrE)
  then show "1 \<le> n_frags cfg"
    by (simp add: n_frags_def convert_units_def)
next
  assume nf: "list_all (\<lambda>l. \<not> is_fragment_line l) (file_lines bytes)"
  have empty: "frags c = []"
    if "set_config_defaults E = Inr c0" "read_loop E (first_line bytes) c0 = Inr c" for c0 c
  proof -
    have "ptr (first_line bytes) = buffer (first_line bytes)"
      by (simp add: first_line_def next_line_ptr_buffer)
    moreover have "list_all (\<lambda>l. \<not> is_fragment_line l) (stream_lines (first_line bytes))"
      using nf by (simp add: file_lines_def)
    ultimately have "frags c = frags c0"
      using that(2) by (rule read_loop_no_fragment)
    with that(1) show ?thesis by (simp add: set_config_defaults_frags)
  qed
  show "\<exists>e. parse_config E (Some bytes) = Inl e"
  proof (cases "parse_config E (Some bytes)")
    case (Inl e)
    then show ?thesis by blast
  next
    case (Inr cfg')
    then obtain c0 c where "set_config_defaults E = Inr c0"
      "read_loop E (first_line bytes) c0 = Inr c" "1 \<le> n_frags c"
      by (elim parse_config_InrE) simp
    with empty [of c0 c] show ?thesis by (simp add: n_frags_def)
  qed
  fix c0 c
  assume "set_config_defaults E = Inr c0" "read_loop E (first_line bytes) c0 = Inr c"
  with empty [OF this] show
    "parse_config E (Some bytes) = Inl AT_LEAST_ONE_FRAGMENT_MUST_BE_SPECIFIED"
    by (simp add: parse_config_def first_line_def n_frags_def)
qed


theorem C4_at_least_one_fragment_witness:
  "list_all (\<lambda>l. \<not> is_fragment_line l) (file_lines ''time_step 2.0\<newline>units bohr\<newline>'') \<and>
   parse_config sample_platform (Some ''time_step 2.0\<newline>units bohr\<newline>'') =
     Inl AT_LEAST_ONE_FRAGMENT_MUST_BE_SPECIFIED"
proof -
  let ?bytes = "''time_step 2.0\<newline>units bohr\<newline>''"
  have nf: "list_all (\<lambda>l. \<not> is_fragment_line l) (file_lines ?bytes)"
    by code_simp
  have "map_sum (\<lambda>_. ()) (\<lambda>_. ()) (set_config_defaults sample_platform) = Inr ()"
    by code_simp
  then obtain c0 where c0: "set_config_defaults sample_platform = Inr c0"
    by (auto dest: map_sum_InrD)
  have "map_sum (\<lambda>_. ()) (\<lambda>_. ()) (read_loop sample_platform (first_line ?bytes)
      (projr (set_config_defaults sample_platform))) = Inr ()"
    by code_simp
  then obtain c where c: "read_loop sample_platform (first_line ?bytes) c0 = Inr c"
    unfolding c0 sum.sel by (auto dest: map_sum_InrD)
  from C4_at_least_one_fragment [of sample_platform "Some ?bytes" undefined ?bytes] nf c0 c
  have "parse_config sample_platform (Some ?bytes) = Inl AT_LEAST_ONE_FRAGMENT_MUST_BE_SPECIFIED"
    by blast
  with nf show ?thesis by (rule conjI)
qed

subsection \<open>Enumeration matcher\<close>

lemma take_eq_prefix: "length w = n \<Longrightarrow> (take n str = w) = prefix w str"
  by (auto simp: prefix_def) (metis append_take_drop_id)

lemma strneq_literal: "length w \<ge> n \<Longrightarrow> strneq str w n = prefix (take n w) str"
  unfolding strneq_def using take_eq_prefix [of "take n w" n str] by auto

lemma two_prefixes: "prefix (a # x) str \<Longrightarrow> prefix (b # y) str \<Longrightarrow> a = b \<and> ((prefix x y) \<or> (prefix y x))"
  by (metis prefix_same_cases Cons_prefix_Cons)

lemma longest_match_run_type:
  "parse_run_type str = spec_longest_prefix_match str run_type_names run_type_values"
  unfolding parse_run_type_def run_type_names_def run_type_values_def
    parse_enum_def spec_longest_prefix_match_def
  by (auto simp add: parse_enum_loop.simps skip_newline_def not_newline_def strneq_literal
      dest: two_prefixes)

lemma longest_match_coord:
  "parse_coord str = spec_longest_prefix_match str coord_names coord_values"
  unfolding parse_coord_def coord_names_def coord_values_def
    parse_enum_def spec_longest_prefix_match_def
  by (auto simp add: parse_enum_loop.simps skip_newline_def not_newline_def strneq_literal
      dest: two_prefixes)

lemma longest_match_units:
  "parse_units E str = spec_longest_prefix_match str units_names (units_values E)"
  unfolding parse_units_def units_names_def units_values_def
    parse_enum_def spec_longest_prefix_match_def
  by (auto simp add: parse_enum_loop.simps skip_newline_def not_newline_def strneq_literal
      dest: two_prefixes)

lemma longest_match_elec_damp:
  "parse_elec_damp str = spec_longest_prefix_match str elec_damp_names elec_damp_values"
  unfolding parse_elec_damp_def elec_damp_names_def elec_damp_values_def
    parse_enum_def spec_longest_prefix_match_def
  by (auto simp add: parse_enum_loop.simps skip_newline_def not_newline_def strneq_literal
      dest: two_prefixes)

lemma longest_match_disp_damp:
  "parse_disp_damp str = spec_longest_prefix_match str disp_damp_names disp_damp_values"
  unfolding parse_disp_damp_def disp_damp_names_def disp_damp_values_def
    parse_enum_def spec_longest_prefix_match_def
  by (auto simp add: parse_enum_loop.simps skip_newline_def not_newline_def strneq_literal
      dest: two_prefixes)

lemma longest_match_pol_damp:
  "parse_pol_damp str = spec_longest_prefix_match str pol_damp_names pol_damp_values"
  unfolding parse_pol_damp_def pol_damp_names_def pol_damp_values_def
    parse_enum_def spec_longest_prefix_match_def
  by (auto simp add: parse_enum_loop.simps skip_newline_def not_newline_def strneq_literal
      dest: two_prefixes)

lemma longest_match_ensemble:
  "parse_ensemble str = spec_longest_prefix_match str ensemble_names ensemble_values"
  unfolding parse_ensemble_def ensemble_names_def ensemble_values_def
    parse_enum_def spec_longest_prefix_match_def
  by (auto simp add: parse_enum_loop.simps skip_newline_def not_newline_def strneq_literal
      dest: two_prefixes)

text \<open>
  C6: on every name table of the program (run type, coordinate representation, units, the
  three damping choices, ensemble) and every input, the enumeration matcher gives what
  the longest registered name that is a prefix of the input gives: that entry's value,
  and the cursor moved past the name and nothing more; it fails when no registered name
  is a prefix.
\<close>

theorem C6_enum_longest_prefix:
  "parse_run_type str = spec_longest_prefix_match str run_type_names run_type_values \<and>
   parse_coord str = spec_longest_prefix_match str coord_names coord_values \<and>
   parse_units E str = spec_longest_prefix_match str units_names (units_values E) \<and>
   parse_elec_damp str = spec_longest_prefix_match str elec_damp_names elec_damp_values \<and>
   parse_disp_damp str = spec_longest_prefix_match str disp_damp_names disp_damp_values \<and>
   parse_pol_damp str = spec_longest_prefix_match str pol_damp_names pol_damp_values \<and>
   parse_ensemble str = spec_longest_prefix_match str ensemble_names ensemble_values"
  by (intro conjI longest_match_run_type longest_match_coord longest_match_units
      longest_match_elec_damp longest_match_disp_damp longest_match_pol_damp
      longest_match_ensemble)

theorem C6_enum_longest_prefix_witness:
  "parse_elec_damp ''overlap 1'' = Some (EFP_ELEC_DAMP_OVERLAP, '' 1'') \<and>
   spec_longest_prefix_match ''overlap 1'' elec_damp_names elec_damp_values =
     Some (EFP_ELEC_DAMP_OVERLAP, '' 1'')"
proof -
  have "spec_longest_prefix_match ''overlap 1'' elec_damp_names elec_damp_values =
     Some (EFP_ELEC_DAMP_OVERLAP, '' 1'')"
    by code_simp
  with C6_enum_longest_prefix [of "''overlap 1''" sample_platform] show ?thesis
    by simp
qed

subsection \<open>Terms parser\<close>

lemma keyword_run_simps [simp]:
  "keyword_run []"
  "keyword_run ((e, w) # ks) \<longleftrightarrow> e \<in> set term_list \<and> list_all isspace w \<and> keyword_run ks"
  by (simp_all add: keyword_run_def)

lemma keyword_text_simps [simp]:
  "keyword_text [] = []"
  "keyword_text ((e, w) # ks) = fst e @ w @ keyword_text ks"
  by (simp_all add: keyword_text_def)

lemma keyword_bits_simps [simp]:
  "keyword_bits a [] = a"
  "keyword_bits a ((e, w) # ks) = keyword_bits (a OR snd e) ks"
  by (simp_all add: keyword_bits_def)

lemma parse_terms_loop_sound:
  "parse_terms_loop p trms = Some (t, r) \<Longrightarrow>
     r = [] \<and> (\<exists>ks. keyword_run ks \<and> p = keyword_text ks \<and> t = keyword_bits trms ks)"
proof (induction p trms rule: parse_terms_loop.induct)
  case (1 p trms)
  show ?case
  proof (cases "p = []")
    case True
    with "1.prems" have "t = trms" "r = []" by (simp_all add: parse_terms_loop.simps)
    with True show ?thesis by (intro conjI exI [of _ "[]"]) simp_all
  next
    case False
    with "1.prems" obtain n v where m: "match_term term_list p = Some (n, v)"
      and rest: "parse_terms_loop (dropWhile isspace (drop n p)) (trms OR v) = Some (t, r)"
      by (auto simp: parse_terms_loop.simps [of p trms] split: option.splits)
    from match_term_Some [OF m] obtain nm where nm: "(nm, v) \<in> set term_list" "n = length nm"
      "prefix nm p" by blast
    from "1.IH" [OF False m refl rest] obtain ks where ks: "r = []" "keyword_run ks"
      "dropWhile isspace (drop n p) = keyword_text ks" "t = keyword_bits (trms OR v) ks"
      by blast
    let ?w = "takeWhile isspace (drop n p)"
    have "p = nm @ drop n p" using nm(2,3) by (auto simp: prefix_def)
    also have "drop n p = ?w @ keyword_text ks" using ks(3) [symmetric] by simp
    finally have p: "p = keyword_text (((nm, v), ?w) # ks)" by simp
    have "list_all isspace ?w"
      by (simp add: list_all_iff) (meson set_takeWhileD)
    with nm(1) ks(2) have "keyword_run (((nm, v), ?w) # ks)" by simp
    moreover have "t = keyword_bits trms (((nm, v), ?w) # ks)" using ks(4) by simp
    ultimately show ?thesis using ks(1) p by blast
  qed
qed

lemma match_term_keyword:
  "(nm, v) \<in> set term_list \<Longrightarrow> match_term term_list (nm @ x) = Some (length nm, v)"
  by (auto simp: term_list_def strneq_def)

lemma term_list_not_space: "(nm, v) \<in> set term_list \<Longrightarrow> nm \<noteq> [] \<and> \<not> isspace (hd nm)"
  by (auto simp: term_list_def isspace_def)

lemma keyword_text_head:
  "keyword_run ks \<Longrightarrow> dropWhile isspace (keyword_text ks) = keyword_text ks"
proof (cases ks)
  case Nil
  then show ?thesis by simp
next
  case (Cons k ks')
  assume "keyword_run ks"
  with Cons obtain nm v w where "k = ((nm, v), w)" "(nm, v) \<in> set term_list"
    by (cases k) auto
  with Cons term_list_not_space [of nm v] show ?thesis
    by (cases nm) auto
qed

lemma parse_terms_loop_complete:
  "keyword_run ks \<Longrightarrow> parse_terms_loop (keyword_text ks) trms = Some (keyword_bits trms ks, [])"
proof (induction ks arbitrary: trms)
  case Nil
  then show ?case by (simp add: parse_terms_loop.simps)
next
  case (Cons k ks)
  obtain nm v w where k: "k = ((nm, v), w)" by (metis surj_pair)
  with Cons.prems have e: "(nm, v) \<in> set term_list" and w: "list_all isspace w"
    and ks: "keyword_run ks" by simp_all
  from e have ne: "nm \<noteq> []" using term_list_not_space by blast
  have "dropWhile isspace (w @ keyword_text ks) = dropWhile isspace (keyword_text ks)"
    using w by (simp add: list_all_iff dropWhile_append)
  also have "\<dots> = keyword_text ks" using ks by (rule keyword_text_head)
  finally have rest: "dropWhile isspace (drop (length nm) (nm @ w @ keyword_text ks)) = keyword_text ks"
    by simp
  show ?case
    using ne Cons.IH [OF ks, of "trms OR v"] match_term_keyword [OF e, of "w @ keyword_text ks"] rest
    by (simp add: k parse_terms_loop.simps [of "nm @ w @ keyword_text ks"])
qed

lemma keyword_bits_zero:
  "keyword_run ks \<Longrightarrow> keyword_bits a ks = 0 \<longleftrightarrow> a = 0 \<and> ks = []"
proof (induction ks arbitrary: a)
  case Nil
  then show ?case by simp
next
  case (Cons k ks)
  obtain nm v w where k: "k = ((nm, v), w)" by (metis surj_pair)
  with Cons.prems have "(nm, v) \<in> set term_list" "keyword_run ks" by simp_all
  then have "v \<noteq> 0" "keyword_bits (a OR v) ks = 0 \<longleftrightarrow> a OR v = 0 \<and> ks = []"
    using Cons.IH by (auto simp: term_list_def EFP_TERM_ELEC_def EFP_TERM_POL_def
        EFP_TERM_DISP_def EFP_TERM_XR_def)
  then show ?case by (simp add: k or_eq_0_iff)
qed

lemma parse_terms_accepts:
  "parse_terms str = Some (t, r) \<longleftrightarrow>
     r = [] \<and> (\<exists>ks. ks \<noteq> [] \<and> keyword_run ks \<and> str = keyword_text ks \<and> t = keyword_bits 0 ks)"
proof
  assume "parse_terms str = Some (t, r)"
  then have l: "parse_terms_loop str 0 = Some (t, r)" and nz: "t \<noteq> 0"
    by (auto simp: parse_terms_def split: option.splits if_splits)
  from parse_terms_loop_sound [OF l] obtain ks where ks: "r = []" "keyword_run ks"
    "str = keyword_text ks" "t = keyword_bits 0 ks" by blast
  with nz have "ks \<noteq> []" by auto
  with ks show "r = [] \<and> (\<exists>ks. ks \<noteq> [] \<and> keyword_run ks \<and> str = keyword_text ks \<and> t = keyword_bits 0 ks)"
    by blast
next
  assume "r = [] \<and> (\<exists>ks. ks \<noteq> [] \<and> keyword_run ks \<and> str = keyword_text ks \<and> t = keyword_bits 0 ks)"
  then obtain ks where ks: "r = []" "ks \<noteq> []" "keyword_run ks" "str = keyword_text ks"
    "t = keyword_bits 0 ks" by blast
  from ks(2,3,5) have "t \<noteq> 0" by (simp add: keyword_bits_zero)
  with parse_terms_loop_complete [OF ks(3), of 0] ks show "parse_terms str = Some (t, r)"
    by (simp add: parse_terms_def)
qed


lemma terms_line_elec_foo:
  assumes "ptr s = Some ''terms elec foo''"
  shows "config_step E s c = Inl (INCORRECT_VALUE_FOR_OPTION ''terms'')"
proof -
  have "parse_terms ''elec foo'' = None" by code_simp
  then have "parse_field_loop (config_list E) ''terms elec foo'' c =
      Inl (INCORRECT_VALUE_FOR_OPTION ''terms'')"
    by (simp add: config_list_def strneq_def at_member_def isspace_def)
  with assms show ?thesis
    by (simp add: config_step_def skip_space_def parse_field_def strneq_def isspace_def)
qed

text \<open>
  C5, amended: the terms parser accepts exactly the texts made of one or more keywords
  of elec, pol, disp and xr, each followed by any number of white-space characters
  (none is enough, so \<open>elecdisp\<close> is accepted), up to the end of the line; the result is
  the bitwise OR of the keywords' bits, and the cursor is at the end of the line. It
  fails where no keyword starts the rest of the text, and on a text without keywords.
  \<open>elec disp\<close> gives electrostatics and dispersion and nothing else, and the line
  \<open>terms elec foo\<close> aborts the load.
\<close>

theorem C5_terms_parser:
  "(parse_terms str = Some (t, r) \<longleftrightarrow>
      r = [] \<and> (\<exists>ks. ks \<noteq> [] \<and> keyword_run ks \<and> str = keyword_text ks \<and> t = keyword_bits 0 ks)) \<and>
   parse_terms ''elec disp'' = Some (EFP_TERM_ELEC OR EFP_TERM_DISP, []) \<and>
   (EFP_TERM_ELEC OR EFP_TERM_DISP) AND (EFP_TERM_POL OR EFP_TERM_XR) = 0 \<and>
   parse_terms ''elec foo'' = None \<and>
   (ptr s = Some ''terms elec foo'' \<longrightarrow>
      config_step E s c = Inl (INCORRECT_VALUE_FOR_OPTION ''terms''))"
proof (intro conjI impI)
  show "parse_terms ''elec disp'' = Some (EFP_TERM_ELEC OR EFP_TERM_DISP, [])"
    by code_simp
  show "(EFP_TERM_ELEC OR EFP_TERM_DISP) AND (EFP_TERM_POL OR EFP_TERM_XR) = 0"
    by (simp add: EFP_TERM_ELEC_def EFP_TERM_POL_def EFP_TERM_DISP_def EFP_TERM_XR_def)
  show "parse_terms ''elec foo'' = None"
    by code_simp
qed (rule parse_terms_accepts, erule terms_line_elec_foo)

theorem C5_terms_parser_witness:
  "ptr \<lparr>buffer = Some ''terms elec foo'', ptr = Some ''terms elec foo'', inp = []\<rparr> =
     Some ''terms elec foo'' \<and>
   config_step sample_platform
     \<lparr>buffer = Some ''terms elec foo'', ptr = Some ''terms elec foo'', inp = []\<rparr>
     (zero_config sample_platform) = Inl (INCORRECT_VALUE_FOR_OPTION ''terms'')"
  using C5_terms_parser [of "[]" 0 "[]"
      "\<lparr>buffer = Some ''terms elec foo'', ptr = Some ''terms elec foo'', inp = []\<rparr>"
      sample_platform "zero_config sample_platform"]
  by simp

theorem C5_terms_parser_counterexample:
  "parse_terms ''elecdisp'' = Some (EFP_TERM_ELEC OR EFP_TERM_DISP, []) \<and>
   \<not> spec_terms_accepts ''elecdisp''"
  by code_simp

subsection \<open>Defaults\<close>

lemma default_texts:
  "parse_run_type ''sp'' = Some (RUN_TYPE_SP, [])"
  "parse_coord ''xyzabc'' = Some (EFP_COORD_TYPE_XYZABC, [])"
  "parse_terms ''elec pol disp xr'' =
     Some (EFP_TERM_ELEC OR EFP_TERM_POL OR EFP_TERM_DISP OR EFP_TERM_XR, [])"
  "parse_elec_damp ''screen'' = Some (EFP_ELEC_DAMP_SCREEN, [])"
  "parse_disp_damp ''tt'' = Some (EFP_DISP_DAMP_TT, [])"
  "parse_pol_damp ''tt'' = Some (EFP_POL_DAMP_TT, [])"
  "parse_ensemble ''nve'' = Some (ENSEMBLE_TYPE_NVE, [])"
  "parse_int (Some ''100'') = Some (100, [])"
  "parse_int (Some ''1'') = Some (1, [])"
  "parse_string (Some ''.'') = Some (''.'', [])"
  "strtod ''0.001'' = Some (''0.001'', [])"
  "strtod ''300.0'' = Some (''300.0'', [])"
  "strtod ''1.0'' = Some (''1.0'', [])"
  "strtod ''1.0e3'' = Some (''1.0e3'', [])"
  "strtod ''1.0e-4'' = Some (''1.0e-4'', [])"
  by code_simp+

lemma default_units: "parse_units E ''angs'' = Some (d_inv_bohr_radius E, [])"
  by (simp add: parse_units_def parse_enum_def units_names_def units_values_def
      parse_enum_loop.simps skip_newline_def not_newline_def strneq_def)











subsection \<open>Unit conversion\<close>

lemma read_loop_invariant:
  assumes "read_loop E s c = Inr c'" and "I s c"
    and "\<And>s c s1 c1. I s c \<Longrightarrow> buffer s \<noteq> None \<Longrightarrow> config_step E s c = Inr (s1, c1) \<Longrightarrow> I s1 c1"
  shows "\<exists>s'. I s' c'"
  using assms
proof (induction E s c rule: read_loop.induct)
  case (1 E s c)
  show ?case
  proof (cases "buffer s")
    case None
    with "1.prems" show ?thesis by (auto simp: read_loop.simps)
  next
    case (Some l)
    with "1.prems"(1) obtain s1 c1 where step: "config_step E s c = Inr (s1, c1)"
      and rest: "read_loop E s1 c1 = Inr c'"
      by (auto simp: read_loop.simps [of E s c] split: sum.splits)
    from Some have "buffer s \<noteq> None" by simp
    with "1.prems"(2) have "I s1 c1" using step by (rule "1.prems"(3))
    with "1.IH" [OF _ step refl rest] Some "1.prems"(3) show ?thesis by simp
  qed
qed

lemma length_convert_coord [simp]: "length (convert_coord E f n a) = length a"
  by (induction n) (simp_all add: Let_def)

lemma nth_convert_coord:
  "n \<le> length a \<Longrightarrow> j < length a \<Longrightarrow>
     convert_coord E f n a ! j = (if j < n then d_mul E (a ! j) f else a ! j)"
proof (induction n)
  case 0
  then show ?case by simp
next
  case (Suc n)
  then show ?case
    by (cases "j = n") (auto simp: Let_def less_Suc_eq)
qed

lemma length_parse_doubles:
  "parse_doubles E n idx p a = Some (a', p') \<Longrightarrow> length a' = length a"
  by (induction n arbitrary: idx p a) (auto split: option.splits)

lemma length_parse_rows:
  "parse_rows E rows cols idx s a = Inr (a', s') \<Longrightarrow> length a' = length a"
  by (induction rows arbitrary: idx s a) (auto split: option.splits dest: length_parse_doubles)

lemma parse_velocity_coord:
  "parse_velocity E s f = Inr (f', s') \<Longrightarrow> coord f' = coord f \<and> name f' = name f"
  by (auto simp: parse_velocity_def parse_velocity_row_def Let_def
      split: option.splits if_splits)

lemma parse_frag_coord_length:
  "parse_frag E s ct = Inr (f, s') \<Longrightarrow> length (coord f) = 12"
  by (auto simp: parse_frag_def split: option.splits sum.splits
      dest!: length_parse_rows parse_velocity_coord)

lemma config_step_coords:
  assumes "config_step E s c = Inr (s1, c1)" and "coords_allocated c"
  shows "coords_allocated c1"
  using assms
  by (auto simp: config_step_def Let_def coords_allocated_def
      split: option.splits if_splits sum.splits
      dest: parse_frag_coord_length parse_field_frame)

lemma read_loop_coords:
  assumes "read_loop E s c = Inr c'" and "coords_allocated c"
  shows "coords_allocated c'"
  using read_loop_invariant [of E s c c' "\<lambda>s c. coords_allocated c"] assms config_step_coords
  by blast

lemma defaults_coords: "set_config_defaults E = Inr c0 \<Longrightarrow> coords_allocated c0"
  by (simp add: coords_allocated_def set_config_defaults_frags)

lemma n_convert_le: "n_convert ct \<le> 12"
  by (cases ct) (simp_all add: n_convert_def)

lemma ex_lines:
  "first_line ''time_step 2.0\<newline>fragment a\<newline>0 0 0 0 0 0\<newline>'' =
     \<lparr>buffer = Some ''time_step 2.0'', ptr = Some ''time_step 2.0'', inp = ''fragment a\<newline>0 0 0 0 0 0\<newline>''\<rparr>"
  "next_line \<lparr>buffer = b1, ptr = p1, inp = ''fragment a\<newline>0 0 0 0 0 0\<newline>''\<rparr> =
     \<lparr>buffer = Some ''fragment a'', ptr = Some ''fragment a'', inp = ''0 0 0 0 0 0\<newline>''\<rparr>"
  "next_line \<lparr>buffer = b2, ptr = p2, inp = ''0 0 0 0 0 0\<newline>''\<rparr> =
     \<lparr>buffer = Some ''0 0 0 0 0 0'', ptr = Some ''0 0 0 0 0 0'', inp = []\<rparr>"
  "next_line \<lparr>buffer = b3, ptr = p3, inp = []\<rparr> = \<lparr>buffer = None, ptr = None, inp = []\<rparr>"
  by (simp_all add: first_line_def next_line_def read_line_def c_str_def tolower_def isupper_def)

lemma ex_scans:
  "strtod ''2.0'' = Some (''2.0'', [])"
  "strtod ''0 0 0 0 0 0'' = Some (''0'', '' 0 0 0 0 0'')"
  "strtod '' 0 0 0 0 0'' = Some (''0'', '' 0 0 0 0'')"
  "strtod '' 0 0 0 0'' = Some (''0'', '' 0 0 0'')"
  "strtod '' 0 0 0'' = Some (''0'', '' 0 0'')"
  "strtod '' 0 0'' = Some (''0'', '' 0'')"
  "strtod '' 0'' = Some (''0'', [])"
  "parse_string (Some '' a'') = Some (''a'', [])"
  by code_simp+

lemma ex_field:
  "parse_field_loop (config_list E) ''time_step 2.0'' c =
     (if d_gt_zero E (d_of_text E ''2.0'') then Inr ([], c\<lparr>time_step := d_of_text E ''2.0''\<rparr>)
      else Inl (OPTION_VALUE_IS_OUT_OF_RANGE ''time_step''))"
  by (simp add: config_list_def strneq_def at_member_def isspace_def parse_double_def ex_scans
      double_gt_zero_def)

lemma ex_frag:
  "parse_frag E \<lparr>buffer = Some ''fragment a'', ptr = Some '' a'', inp = ''0 0 0 0 0 0\<newline>''\<rparr>
     EFP_COORD_TYPE_XYZABC =
   Inr (\<lparr>name = ''a'', coord = replicate 6 (d_of_text E ''0'') @ replicate 6 (d_zero E),
         vel = replicate 6 (d_zero E)\<rparr>, \<lparr>buffer = None, ptr = None, inp = []\<rparr>)"
  by (simp add: parse_frag_def ex_scans ex_lines n_rows_def n_cols_def parse_double_def
      parse_velocity_def parse_velocity_row_def numeral_eq_Suc)

lemma set_config_defaults_coord:
  assumes "set_config_defaults E = Inr c0"
  shows "coord_type c0 = EFP_COORD_TYPE_XYZABC"
  using assms
  by (auto simp: set_config_defaults_def config_list_def at_member_def zero_config_def
      default_texts default_units parse_double_def split: if_splits option.splits)

lemma ex_loads:
  assumes "coord_type c = EFP_COORD_TYPE_XYZABC"
  shows "read_loop E (first_line ''time_step 2.0\<newline>fragment a\<newline>0 0 0 0 0 0\<newline>'') c =
    (if d_gt_zero E (d_of_text E ''2.0'')
     then Inr (c\<lparr>time_step := d_of_text E ''2.0'',
                 frags := frags c @ [\<lparr>name = ''a'',
                   coord = replicate 6 (d_of_text E ''0'') @ replicate 6 (d_zero E),
                   vel = replicate 6 (d_zero E)\<rparr>]\<rparr>)
     else Inl (OPTION_VALUE_IS_OUT_OF_RANGE ''time_step''))"
  using assms
  by (simp add: ex_lines read_loop.simps config_step_def skip_space_def parse_field_def ex_field
      isspace_def strneq_def ex_frag)

lemma convert_units_fields:
  "time_step (convert_units E c) = d_mul E (FS_TO_AU E) (time_step c)"
  "thermostat_tau (convert_units E c) = d_mul E (FS_TO_AU E) (thermostat_tau c)"
  "units_factor (convert_units E c) = units_factor c"
  "coord_type (convert_units E c) = coord_type c"
  "length (frags (convert_units E c)) = length (frags c)"
  by (simp_all add: convert_units_def)

lemma convert_units_frag:
  assumes "i < length (frags c)"
  shows "name (frags (convert_units E c) ! i) = name (frags c ! i)"
    and "vel (frags (convert_units E c) ! i) = vel (frags c ! i)"
    and "coord (frags (convert_units E c) ! i) =
           convert_coord E (units_factor c) (n_convert (coord_type c)) (coord (frags c ! i))"
  using assms by (simp_all add: convert_units_def)

lemma read_loop_blocks:
  assumes "read_loop E s c = Inr raw"
  shows "\<exists>new. frags raw = frags c @ new \<and>
     list_all2 (\<lambda>t f. \<exists>s0 s1. parse_frag E s0 t = Inr (f, s1)) (block_types E s c) new"
  using assms
proof (induction E s c rule: read_loop.induct)
  case (1 E s c)
  show ?case
  proof (cases "buffer s")
    case None
    then have "block_types E s c = []"
      by (simp add: block_types.simps [of E s c])
    moreover from None "1.prems" have "raw = c"
      by (simp add: read_loop.simps [of E s c])
    ultimately show ?thesis by simp
  next
    case (Some b)
    with "1.prems" obtain s1 c1 where step: "config_step E s c = Inr (s1, c1)"
      and rest: "read_loop E s1 c1 = Inr raw"
      by (auto simp: read_loop.simps [of E s c] split: sum.splits)
    from Some have nb: "buffer s \<noteq> None" by simp
    from "1.IH" [OF nb step refl rest] obtain new1 where
      n1: "frags raw = frags c1 @ new1"
      and l1: "list_all2 (\<lambda>t f. \<exists>s0 s1. parse_frag E s0 t = Inr (f, s1)) (block_types E s1 c1) new1"
      by blast
    from step obtain l where l: "ptr s = Some l"
      by (cases "ptr s") (auto simp: config_step_def)
    show ?thesis
    proof (cases "is_fragment_line l")
      case True
      from step config_step_fragment_line [OF l True, of E c]
      obtain f where f: "parse_frag E (s\<lparr>ptr := Some (drop (length ''fragment'') (dropWhile isspace l))\<rparr>)
                   (coord_type c) = Inr (f, s1)" and c1: "c1 = c\<lparr>frags := frags c @ [f]\<rparr>"
        by (auto split: sum.splits)
      have bt: "block_types E s c = coord_type c # block_types E s1 c1"
        using Some step l True by (simp add: block_types.simps [of E s c])
      from n1 c1 have "frags raw = frags c @ (f # new1)" by simp
      moreover from f l1 have "list_all2 (\<lambda>t f. \<exists>s0 s1. parse_frag E s0 t = Inr (f, s1))
          (block_types E s c) (f # new1)"
        unfolding bt by blast
      ultimately show ?thesis by blast
    next
      case False
      from config_step_other_line [OF step l False] have "frags c1 = frags c" by simp
      moreover have "block_types E s c = block_types E s1 c1"
        using Some step l False by (simp add: block_types.simps [of E s c])
      ultimately show ?thesis using n1 l1 by auto
    qed
  qed
qed

text \<open>
  C1, amended: a returned record is the record at the end of reading with the unit
  conversion applied once. The time step and the thermostat relaxation time are
  \<^verbatim>\<open>FS_TO_AU\<close> times the values read; the names and the velocities of the fragments are
  those read; of every fragment, the first \<open>n\<close> coordinates are the values read times the
  units factor of the record and the others are the values read. The count \<open>n\<close> is the
  same for every fragment: it is the one of the representation the record holds when the
  whole file has been read, 9 for points, 3 for xyzabc and 3 for rotmat, whereas the
  block of fragment \<open>i\<close> was read by \<open>parse_frag\<close> with the representation the record held
  at its keyword line, the \<open>i\<close>-th of \<open>block_types\<close>. Once the defaults are set, the
  file with the line \<open>time_step 2.0\<close> and one xyzabc fragment loads, where the value of
  2.0 passes the validator, with the time step \<^verbatim>\<open>FS_TO_AU\<close> times that value.
\<close>

theorem C1_unit_conversion:
  "(parse_config E file = Inr cfg \<longrightarrow>
      (\<exists>bytes c0 raw.
         file = Some bytes \<and> set_config_defaults E = Inr c0 \<and>
         read_loop E (first_line bytes) c0 = Inr raw \<and>
         time_step cfg = d_mul E (FS_TO_AU E) (time_step raw) \<and>
         thermostat_tau cfg = d_mul E (FS_TO_AU E) (thermostat_tau raw) \<and>
         units_factor cfg = units_factor raw \<and> coord_type cfg = coord_type raw \<and>
         length (frags cfg) = length (frags raw) \<and>
         length (block_types E (first_line bytes) c0) = length (frags raw) \<and>
         (\<forall>i<length (frags raw).
            (\<exists>s s'. parse_frag E s (block_types E (first_line bytes) c0 ! i) =
                      Inr (frags raw ! i, s')) \<and>
            name (frags cfg ! i) = name (frags raw ! i) \<and>
            vel (frags cfg ! i) = vel (frags raw ! i) \<and>
            (\<forall>j<12.
               coord (frags cfg ! i) ! j =
                 (if j < n_convert (coord_type raw)
                  then d_mul E (coord (frags raw ! i) ! j) (units_factor raw)
                  else coord (frags raw ! i) ! j))))) \<and>
   n_convert EFP_COORD_TYPE_POINTS = 9 \<and> n_convert EFP_COORD_TYPE_XYZABC = 3 \<and>
   n_convert EFP_COORD_TYPE_ROTMAT = 3 \<and>
   (set_config_defaults E = Inr d0 \<and> d_gt_zero E (d_of_text E ''2.0'') \<longrightarrow>
      (\<exists>cfg'. parse_config E (Some ''time_step 2.0\<newline>fragment a\<newline>0 0 0 0 0 0\<newline>'') = Inr cfg' \<and>
              time_step cfg' = d_mul E (FS_TO_AU E) (d_of_text E ''2.0'')))"
proof (intro conjI impI)
  assume "parse_config E file = Inr cfg"
  then obtain bytes c0 raw where l: "file = Some bytes" "set_config_defaults E = Inr c0"
    "read_loop E (first_line bytes) c0 = Inr raw" and cfg: "cfg = convert_units E raw"
    by (rule parse_config_InrE)
  from l(2,3) have "coords_allocated raw"
    by (auto intro: read_loop_coords defaults_coords)
  then have len: "length (coord (frags raw ! i)) = 12" if "i < length (frags raw)" for i
    using that by (simp add: coords_allocated_def list_all_length)
  from l(2) have "frags c0 = []" by (rule set_config_defaults_frags)
  with read_loop_blocks [OF l(3)]
  have bl: "list_all2 (\<lambda>t f. \<exists>s0 s1. parse_frag E s0 t = Inr (f, s1))
      (block_types E (first_line bytes) c0) (frags raw)"
    by simp
  then have bn: "length (block_types E (first_line bytes) c0) = length (frags raw)"
    by (rule list_all2_lengthD)
  have fr: "(\<exists>s s'. parse_frag E s (block_types E (first_line bytes) c0 ! i) =
                      Inr (frags raw ! i, s')) \<and>
            name (frags cfg ! i) = name (frags raw ! i) \<and>
            vel (frags cfg ! i) = vel (frags raw ! i) \<and>
            (\<forall>j<12.
               coord (frags cfg ! i) ! j =
                 (if j < n_convert (coord_type raw)
                  then d_mul E (coord (frags raw ! i) ! j) (units_factor raw)
                  else coord (frags raw ! i) ! j))"
    if i: "i < length (frags raw)" for i
  proof (intro conjI allI impI)
    from bl i show "\<exists>s s'. parse_frag E s (block_types E (first_line bytes) c0 ! i) =
                      Inr (frags raw ! i, s')"
      by (simp add: list_all2_conv_all_nth)
    from i show "name (frags cfg ! i) = name (frags raw ! i)"
      and "vel (frags cfg ! i) = vel (frags raw ! i)"
      by (simp_all add: cfg convert_units_frag)
    fix j :: nat
    assume "j < 12"
    with i len [OF i] n_convert_le [of "coord_type raw"]
    show "coord (frags cfg ! i) ! j =
                 (if j < n_convert (coord_type raw)
                  then d_mul E (coord (frags raw ! i) ! j) (units_factor raw)
                  else coord (frags raw ! i) ! j)"
      by (simp add: cfg convert_units_frag nth_convert_coord)
  qed
  from l bn fr show "\<exists>bytes c0 raw.
         file = Some bytes \<and> set_config_defaults E = Inr c0 \<and>
         read_loop E (first_line bytes) c0 = Inr raw \<and>
         time_step cfg = d_mul E (FS_TO_AU E) (time_step raw) \<and>
         thermostat_tau cfg = d_mul E (FS_TO_AU E) (thermostat_tau raw) \<and>
         units_factor cfg = units_factor raw \<and> coord_type cfg = coord_type raw \<and>
         length (frags cfg) = length (frags raw) \<and>
         length (block_types E (first_line bytes) c0) = length (frags raw) \<and>
         (\<forall>i<length (frags raw).
            (\<exists>s s'. parse_frag E s (block_types E (first_line bytes) c0 ! i) =
                      Inr (frags raw ! i, s')) \<and>
            name (frags cfg ! i) = name (frags raw ! i) \<and>
            vel (frags cfg ! i) = vel (frags raw ! i) \<and>
            (\<forall>j<12.
               coord (frags cfg ! i) ! j =
                 (if j < n_convert (coord_type raw)
                  then d_mul E (coord (frags raw ! i) ! j) (units_factor raw)
                  else coord (frags raw ! i) ! j)))"
    unfolding cfg convert_units_fields by blast
next
  assume a: "set_config_defaults E = Inr d0 \<and> d_gt_zero E (d_of_text E ''2.0'')"
  then have "coord_type d0 = EFP_COORD_TYPE_XYZABC" and "frags d0 = []"
    by (auto intro: set_config_defaults_coord set_config_defaults_frags)
  with a show "\<exists>cfg'. parse_config E (Some ''time_step 2.0\<newline>fragment a\<newline>0 0 0 0 0 0\<newline>'') = Inr cfg' \<and>
              time_step cfg' = d_mul E (FS_TO_AU E) (d_of_text E ''2.0'')"
    using ex_loads [of d0 E]
    by (simp add: parse_config_def first_line_def n_frags_def convert_units_fields)
qed (simp_all add: n_convert_def)

theorem C1_unit_conversion_witness:
  "parse_config sample_platform
     (Some ''coord points\<newline>time_step 2.0\<newline>fragment a\<newline>1 2 3\<newline>4 5 6\<newline>7 8 9\<newline>'') =
     Inr ((default_config sample_platform)
            \<lparr>coord_type := EFP_COORD_TYPE_POINTS,
             time_step := 2 * FS_TO_AU sample_platform,
             thermostat_tau := 1000 * FS_TO_AU sample_platform,
             frags := [\<lparr>name = ''a'',
                        coord = [1 * d_inv_bohr_radius sample_platform,
                                 2 * d_inv_bohr_radius sample_platform,
                                 3 * d_inv_bohr_radius sample_platform,
                                 4 * d_inv_bohr_radius sample_platform,
                                 5 * d_inv_bohr_radius sample_platform,
                                 6 * d_inv_bohr_radius sample_platform,
                                 7 * d_inv_bohr_radius sample_platform,
                                 8 * d_inv_bohr_radius sample_platform,
                                 9 * d_inv_bohr_radius sample_platform, 0, 0, 0],
                        vel = replicate 6 0\<rparr>]\<rparr>) \<and>
   (\<exists>raw. read_loop sample_platform
            (first_line ''coord points\<newline>time_step 2.0\<newline>fragment a\<newline>1 2 3\<newline>4 5 6\<newline>7 8 9\<newline>'')
            (default_config sample_platform) = Inr raw \<and>
          map coord (frags raw) = [[1, 2, 3, 4, 5, 6, 7, 8, 9, 0, 0, 0]] \<and>
          time_step raw = 2 \<and> coord_type raw = EFP_COORD_TYPE_POINTS \<and>
          units_factor raw = d_inv_bohr_radius sample_platform) \<and>
   block_types sample_platform
     (first_line ''coord points\<newline>time_step 2.0\<newline>fragment a\<newline>1 2 3\<newline>4 5 6\<newline>7 8 9\<newline>'')
     (default_config sample_platform) = [EFP_COORD_TYPE_POINTS] \<and>
   set_config_defaults sample_platform = Inr (default_config sample_platform) \<and>
   d_gt_zero sample_platform (d_of_text sample_platform ''2.0'') \<and>
   (\<exists>cfg'. parse_config sample_platform
             (Some ''time_step 2.0\<newline>fragment a\<newline>0 0 0 0 0 0\<newline>'') = Inr cfg' \<and>
           time_step cfg' = 2 * FS_TO_AU sample_platform)"
proof -
  let ?F = "''coord points\<newline>time_step 2.0\<newline>fragment a\<newline>1 2 3\<newline>4 5 6\<newline>7 8 9\<newline>''"
  let ?C = "(default_config sample_platform)
            \<lparr>coord_type := EFP_COORD_TYPE_POINTS,
             time_step := 2 * FS_TO_AU sample_platform,
             thermostat_tau := 1000 * FS_TO_AU sample_platform,
             frags := [\<lparr>name = ''a'',
                        coord = [1 * d_inv_bohr_radius sample_platform,
                                 2 * d_inv_bohr_radius sample_platform,
                                 3 * d_inv_bohr_radius sample_platform,
                                 4 * d_inv_bohr_radius sample_platform,
                                 5 * d_inv_bohr_radius sample_platform,
                                 6 * d_inv_bohr_radius sample_platform,
                                 7 * d_inv_bohr_radius sample_platform,
                                 8 * d_inv_bohr_radius sample_platform,
                                 9 * d_inv_bohr_radius sample_platform, 0, 0, 0],
                        vel = replicate 6 0\<rparr>]\<rparr>"
  have h1: "parse_config sample_platform (Some ?F) = Inr ?C"
    by code_simp
  have h2: "set_config_defaults sample_platform = Inr (default_config sample_platform)"
    and h3: "d_gt_zero sample_platform (d_of_text sample_platform ''2.0'')"
    by code_simp+
  have h4: "block_types sample_platform (first_line ?F) (default_config sample_platform) =
      [EFP_COORD_TYPE_POINTS]"
    by code_simp
  note d = h2
  have v: "d_mul sample_platform (FS_TO_AU sample_platform) (d_of_text sample_platform ''2.0'') =
      2 * FS_TO_AU sample_platform"
    by code_simp
  note C1 = C1_unit_conversion [of sample_platform "Some ?F" ?C "default_config sample_platform"]
  from C1 h1 obtain bytes c0 raw where
    "Some ?F = Some bytes" "set_config_defaults sample_platform = Inr c0"
    and r: "read_loop sample_platform (first_line bytes) c0 = Inr raw"
    and ts: "time_step ?C = d_mul sample_platform (FS_TO_AU sample_platform) (time_step raw)"
    and ct: "coord_type ?C = coord_type raw" and uf: "units_factor ?C = units_factor raw"
    by blast
  with d have r': "read_loop sample_platform (first_line ?F) (default_config sample_platform) = Inr raw"
    by simp
  have "read_loop sample_platform (first_line ?F) (default_config sample_platform) =
      Inr ((default_config sample_platform)
            \<lparr>coord_type := EFP_COORD_TYPE_POINTS, time_step := 2,
             frags := [\<lparr>name = ''a'', coord = [1, 2, 3, 4, 5, 6, 7, 8, 9, 0, 0, 0],
                        vel = replicate 6 0\<rparr>]\<rparr>)"
    by code_simp
  with r' have raw: "raw = (default_config sample_platform)
            \<lparr>coord_type := EFP_COORD_TYPE_POINTS, time_step := 2,
             frags := [\<lparr>name = ''a'', coord = [1, 2, 3, 4, 5, 6, 7, 8, 9, 0, 0, 0],
                        vel = replicate 6 0\<rparr>]\<rparr>"
    by simp
  have h5: "\<exists>raw. read_loop sample_platform (first_line ?F) (default_config sample_platform) = Inr raw \<and>
          map coord (frags raw) = [[1, 2, 3, 4, 5, 6, 7, 8, 9, 0, 0, 0]] \<and>
          time_step raw = 2 \<and> coord_type raw = EFP_COORD_TYPE_POINTS \<and>
          units_factor raw = d_inv_bohr_radius sample_platform"
    using r' ct [symmetric] uf [symmetric] unfolding raw
    by (simp add: default_config_def)
  from C1 h2 h3
  have h6: "\<exists>cfg'. parse_config sample_platform
        (Some ''time_step 2.0\<newline>fragment a\<newline>0 0 0 0 0 0\<newline>'') = Inr cfg' \<and>
      time_step cfg' =
        d_mul sample_platform (FS_TO_AU sample_platform) (d_of_text sample_platform ''2.0'')"
    by blast
  from h1 h5 h4 h2 h3 h6 show ?thesis unfolding v by (intro conjI)
qed

theorem C1_unit_conversion_counterexample:
  "map_sum id (map coord \<circ> frags)
     (read_loop sample_platform
        (first_line ''coord points\<newline>fragment a\<newline>1 2 3\<newline>4 5 6\<newline>7 8 9\<newline>coord xyzabc\<newline>'')
        (default_config sample_platform)) =
     Inr [[1, 2, 3, 4, 5, 6, 7, 8, 9, 0, 0, 0]] \<and>
   block_types sample_platform
     (first_line ''coord points\<newline>fragment a\<newline>1 2 3\<newline>4 5 6\<newline>7 8 9\<newline>coord xyzabc\<newline>'')
     (default_config sample_platform) = [EFP_COORD_TYPE_POINTS] \<and>
   n_convert EFP_COORD_TYPE_POINTS = 9 \<and>
   map_sum id (map coord \<circ> frags)
     (parse_config sample_platform
        (Some ''coord points\<newline>fragment a\<newline>1 2 3\<newline>4 5 6\<newline>7 8 9\<newline>coord xyzabc\<newline>'')) =
     Inr [[1 * d_inv_bohr_radius sample_platform, 2 * d_inv_bohr_radius sample_platform,
           3 * d_inv_bohr_radius sample_platform, 4, 5, 6, 7, 8, 9, 0, 0, 0]] \<and>
   d_mul sample_platform 4 (d_inv_bohr_radius sample_platform) \<noteq> 4"
  by code_simp

subsection \<open>One option per line\<close>

lemma parse_field_ptr:
  "parse_field E s c = Inr (s2, c') \<Longrightarrow> \<exists>r. ptr s2 = Some r"
  by (auto simp: parse_field_def split: option.splits sum.splits)

lemma config_step_option_line:
  assumes "ptr s = Some p" and "is_option_line p"
    and "parse_field E (skip_space s) c = Inr (s2, c')" and "ptr s2 = Some r"
  shows "config_step E s c =
           (if list_ex (\<lambda>ch. \<not> isspace ch) r then Inl ONLY_ONE_OPTION_PER_LINE_IS_ALLOWED
            else Inr (next_line s, c'))"
proof -
  from assms(3) have nl: "next_line s2 = next_line s"
    using parse_field_frame [of E "skip_space s" c s2 c'] by simp
  have ex: "(dropWhile isspace r \<noteq> []) = list_ex (\<lambda>ch. \<not> isspace ch) r"
    by (simp add: list_ex_iff)
  from assms(2) have nc: "\<not> (case p of [] \<Rightarrow> False | ch # _ \<Rightarrow> ch = CHR ''#'')"
    and nb: "dropWhile isspace p \<noteq> []"
    and nf: "\<not> strneq (dropWhile isspace p) ''fragment'' (length ''fragment'')"
    by (simp_all add: is_option_line_def is_comment_line_def)
  from assms(1) have sk: "ptr (skip_space s) = Some (dropWhile isspace p)"
    by (simp add: skip_space_def)
  from assms(4) have sk2: "ptr (skip_space s2) = Some (dropWhile isspace r)"
    by (simp add: skip_space_def)
  show ?thesis
    unfolding config_step_def Let_def
    by (simp only: assms(1,3) nc nb nf sk sk2 ex nl next_line_skip_space
        option.case sum.case prod.case if_False if_True)
qed

text \<open>
  C8: on an option line whose name was matched, whose value was parsed and whose
  validator, if any, accepted it, the load aborts with the only-one-option error exactly
  when a character other than white space is left on the line; when only white space is
  left, the record with the value is kept and the loop goes on with the next line.
\<close>

theorem C8_one_option_per_line:
  assumes "ptr s = Some p" and "is_option_line p"
    and "parse_field E (skip_space s) c = Inr (s2, c')"
  shows "\<exists>r. ptr s2 = Some r \<and>
           (config_step E s c = Inl ONLY_ONE_OPTION_PER_LINE_IS_ALLOWED \<longleftrightarrow>
              list_ex (\<lambda>ch. \<not> isspace ch) r) \<and>
           (list_all isspace r \<longrightarrow>
              config_step E s c = Inr (next_line s, c') \<and>
              (buffer s \<noteq> None \<longrightarrow> read_loop E s c = read_loop E (next_line s) c'))"
proof -
  from assms(3) obtain r where r: "ptr s2 = Some r"
    using parse_field_ptr by blast
  note step = config_step_option_line [OF assms r]
  have ex: "list_ex (\<lambda>ch. \<not> isspace ch) r \<longleftrightarrow> \<not> list_all isspace r"
    by (simp add: list_ex_iff list_all_iff)
  have "config_step E s c = Inl ONLY_ONE_OPTION_PER_LINE_IS_ALLOWED \<longleftrightarrow>
      list_ex (\<lambda>ch. \<not> isspace ch) r"
    by (simp add: step)
  moreover have "config_step E s c = Inr (next_line s, c')" if "list_all isspace r"
    using that by (simp add: step ex)
  moreover have "read_loop E s c = read_loop E (next_line s) c'"
    if "list_all isspace r" "buffer s \<noteq> None"
    by (simp add: read_loop.simps [of E s c] step ex that)
  ultimately show ?thesis using r by blast
qed

theorem C8_one_option_per_line_witness:
  "ptr \<lparr>buffer = Some ''time_step 2.0 3.0'', ptr = Some ''time_step 2.0 3.0'', inp = []\<rparr> =
     Some ''time_step 2.0 3.0'' \<and>
   is_option_line ''time_step 2.0 3.0'' \<and>
   parse_field sample_platform
     (skip_space \<lparr>buffer = Some ''time_step 2.0 3.0'', ptr = Some ''time_step 2.0 3.0'', inp = []\<rparr>)
     (default_config sample_platform) =
     Inr (\<lparr>buffer = Some ''time_step 2.0 3.0'', ptr = Some '' 3.0'', inp = []\<rparr>,
          (default_config sample_platform)\<lparr>time_step := 2\<rparr>) \<and>
   config_step sample_platform
     \<lparr>buffer = Some ''time_step 2.0 3.0'', ptr = Some ''time_step 2.0 3.0'', inp = []\<rparr>
     (default_config sample_platform) = Inl ONLY_ONE_OPTION_PER_LINE_IS_ALLOWED"
proof -
  let ?s = "\<lparr>buffer = Some ''time_step 2.0 3.0'', ptr = Some ''time_step 2.0 3.0'', inp = []\<rparr>"
  let ?s2 = "\<lparr>buffer = Some ''time_step 2.0 3.0'', ptr = Some '' 3.0'', inp = []\<rparr>"
  let ?c = "default_config sample_platform"
  have h1: "ptr ?s = Some ''time_step 2.0 3.0''" by simp
  have h2: "is_option_line ''time_step 2.0 3.0''" by code_simp
  have h3: "parse_field sample_platform (skip_space ?s) ?c = Inr (?s2, ?c\<lparr>time_step := 2\<rparr>)"
    by code_simp
  have h4: "list_ex (\<lambda>ch. \<not> isspace ch) '' 3.0''" by code_simp
  from C8_one_option_per_line [OF h1 h2 h3] h4
  have "config_step sample_platform ?s ?c = Inl ONLY_ONE_OPTION_PER_LINE_IS_ALLOWED"
    by simp
  with h1 h2 h3 show ?thesis by blast
qed

subsection \<open>Text after the values of a row\<close>

lemma takeWhile_append_stop: "\<not> P w \<Longrightarrow> takeWhile P (v @ w # x) = takeWhile P v"
  by (induction v) auto

lemma dropWhile_append_stop: "\<not> P w \<Longrightarrow> dropWhile P (v @ w # x) = dropWhile P v @ w # x"
  by (induction v) auto

lemma drop_takeWhile_append:
  "drop (length (takeWhile P v)) (v @ y) = drop (length (takeWhile P v)) v @ y"
  by (simp add: length_takeWhile_le)

lemma isspace_not:
  assumes "isspace w"
  shows "\<not> isdigit w" "\<not> isxdigit w" "\<not> isalnum w" "tolower w = w"
    "w \<noteq> CHR ''.''" "w \<noteq> CHR ''(''" "w \<noteq> CHR '')''" "w \<noteq> CHR ''+''" "w \<noteq> CHR ''-''"
    "w \<noteq> CHR ''_''" "w \<noteq> CHR ''e''" "w \<noteq> CHR ''p''"
  using assms
  by (auto simp: isspace_def isdigit_def isxdigit_def isalnum_def tolower_def isupper_def)

lemma scan_sign_extra: "isspace w \<Longrightarrow> scan_sign (v @ w # x) = scan_sign v"
  by (cases v) (auto simp: scan_sign_def isspace_not)

lemma scan_mantissa_extra:
  assumes "isspace w" and "\<not> dig w"
  shows "scan_mantissa dig (v @ w # x) = scan_mantissa dig v"
proof -
  let ?i = "length (takeWhile dig v)"
  have d: "drop ?i (v @ w # x) = drop ?i v @ w # x"
    by (rule drop_takeWhile_append)
  show ?thesis
  proof (cases "drop ?i v")
    case Nil
    with assms d show ?thesis
      by (simp add: scan_mantissa_def takeWhile_append_stop isspace_not del: drop_append)
  next
    case (Cons c r)
    with assms d show ?thesis
      by (simp add: scan_mantissa_def Let_def takeWhile_append_stop isspace_not del: drop_append)
  qed
qed

lemma scan_exponent_extra:
  assumes "isspace w" and "mark = CHR ''e'' \<or> mark = CHR ''p''"
  shows "scan_exponent mark (v @ w # x) = scan_exponent mark v"
proof (cases v)
  case Nil
  from assms have "tolower w \<noteq> mark"
    by (auto simp: isspace_def tolower_def isupper_def)
  with Nil show ?thesis by (simp add: scan_exponent_def)
next
  case (Cons c r)
  have "drop (scan_sign r) (r @ w # x) = drop (scan_sign r) r @ w # x"
    by (cases r) (auto simp: scan_sign_def)
  with Cons assms(1) show ?thesis
    by (simp add: scan_exponent_def Let_def scan_sign_extra takeWhile_append_stop isspace_not
        del: drop_append)
qed

lemma scan_nan_chars_extra:
  assumes "isspace w"
  shows "scan_nan_chars (v @ w # x) = scan_nan_chars v"
proof (cases v)
  case Nil
  with assms show ?thesis by (simp add: scan_nan_chars_def isspace_not)
next
  case (Cons c r)
  let ?P = "\<lambda>x. isalnum x \<or> x = CHR ''_''"
  let ?n = "length (takeWhile ?P r)"
  have d: "drop ?n (r @ w # x) = drop ?n r @ w # x"
    by (rule drop_takeWhile_append)
  from assms have nP: "\<not> ?P w" by (simp add: isspace_not)
  show ?thesis
  proof (cases "drop ?n r")
    case Nil
    with Cons assms d show ?thesis
      by (simp add: scan_nan_chars_def takeWhile_append_stop [of ?P, OF nP] isspace_not
          del: drop_append)
  next
    case (Cons d' r')
    with \<open>v = c # r\<close> assms d show ?thesis
      by (simp add: scan_nan_chars_def takeWhile_append_stop [of ?P, OF nP] isspace_not
          del: drop_append)
  qed
qed

lemma starts_with_extra:
  assumes "isspace w" and "\<forall>c\<in>set k. \<not> isspace c"
  shows "starts_with k (v @ w # x) = starts_with k v"
proof (cases "length k \<le> length v")
  case True
  then show ?thesis by (simp add: starts_with_def)
next
  case False
  then have lt: "length v < length k" by simp
  have "map tolower (take (length k) (v @ w # x)) \<noteq> k"
  proof
    assume eq: "map tolower (take (length k) (v @ w # x)) = k"
    have "k ! length v = map tolower (take (length k) (v @ w # x)) ! length v"
      by (simp only: eq)
    also have "\<dots> = tolower (take (length k) (v @ w # x) ! length v)"
      using lt by (intro nth_map) simp
    also have "\<dots> = tolower ((v @ w # x) ! length v)"
      using lt by (simp only: nth_take)
    also have "\<dots> = tolower w"
      by (simp only: nth_append_length)
    also have "\<dots> = w"
      using assms(1) by (rule isspace_not)
    finally have "k ! length v = w" .
    moreover have "k ! length v \<in> set k" using lt by (rule nth_mem)
    ultimately have "w \<in> set k" by simp
    with assms show False by blast
  qed
  moreover have "map tolower (take (length k) v) \<noteq> k"
  proof
    assume "map tolower (take (length k) v) = k"
    then have "length (map tolower (take (length k) v)) = length k" by (simp only:)
    with lt show False by simp
  qed
  ultimately show ?thesis by (simp add: starts_with_def)
qed

lemma starts_with_length: "starts_with k u \<Longrightarrow> length k \<le> length u"
  unfolding starts_with_def by (metis length_map length_take min.cobounded1)

lemma scan_mantissa_le: "scan_mantissa dig u = Some m \<Longrightarrow> m \<le> length u"
proof -
  assume a: "scan_mantissa dig u = Some m"
  let ?i = "length (takeWhile dig u)"
  have i: "?i \<le> length u" by (rule length_takeWhile_le)
  show ?thesis
  proof (cases "drop ?i u")
    case Nil
    with a i show ?thesis by (auto simp: scan_mantissa_def split: if_splits)
  next
    case (Cons c r)
    then have "length u = ?i + Suc (length r)"
      by (metis i le_add_diff_inverse length_Cons length_drop)
    moreover have "length (takeWhile dig r) \<le> length r" by (rule length_takeWhile_le)
    ultimately show ?thesis using a Cons
      by (auto simp: scan_mantissa_def Let_def split: if_splits)
  qed
qed

lemma scan_exponent_le: "scan_exponent mark u \<le> length u"
proof (cases u)
  case Nil
  then show ?thesis by (simp add: scan_exponent_def)
next
  case (Cons c r)
  have "scan_sign r + length (takeWhile isdigit (drop (scan_sign r) r)) \<le> length r"
    using length_takeWhile_le [of isdigit "drop (scan_sign r) r"]
    by (cases r) (auto simp: scan_sign_def)
  with Cons show ?thesis by (simp add: scan_exponent_def Let_def)
qed

lemma scan_nan_chars_le: "scan_nan_chars u \<le> length u"
proof (cases u)
  case Nil
  then show ?thesis by (simp add: scan_nan_chars_def)
next
  case (Cons c r)
  let ?P = "\<lambda>x. isalnum x \<or> x = CHR ''_''"
  let ?n = "length (takeWhile ?P r)"
  show ?thesis
  proof (cases "drop ?n r")
    case Nil
    with \<open>u = c # r\<close> show ?thesis by (simp add: scan_nan_chars_def)
  next
    case (Cons d r')
    then have "?n < length r" by (metis drop_eq_Nil list.distinct(1) not_le)
    with Cons \<open>u = c # r\<close> show ?thesis by (simp add: scan_nan_chars_def)
  qed
qed

lemma scan_number_le: "scan_number u = Some n \<Longrightarrow> n \<le> length u"
proof -
  assume a: "scan_number u = Some n"
  have nan: "3 + scan_nan_chars (drop 3 u) \<le> length u" if "starts_with ''nan'' u"
    using starts_with_length [OF that] scan_nan_chars_le [of "drop 3 u"] by simp
  have hex: "2 + m + scan_exponent CHR ''p'' (drop (2 + m) u) \<le> length u"
    if "starts_with ''0x'' u" "scan_mantissa isxdigit (drop 2 u) = Some m" for m
    using starts_with_length [OF that(1)] scan_mantissa_le [OF that(2)]
      scan_exponent_le [of "CHR ''p''" "drop (2 + m) u"] by simp
  have dec: "m + scan_exponent CHR ''e'' (drop m u) \<le> length u"
    if "scan_mantissa isdigit u = Some m" for m
    using scan_mantissa_le [OF that] scan_exponent_le [of "CHR ''e''" "drop m u"] by simp
  from a show ?thesis
    unfolding scan_number_def
    by (auto split: if_splits option.splits dest: starts_with_length nan hex dec)
qed

lemma scan_number_extra:
  assumes "isspace w"
  shows "scan_number (v @ w # x) = scan_number v"
proof -
  have kw: "starts_with ''infinity'' (v @ w # x) = starts_with ''infinity'' v"
    "starts_with ''inf'' (v @ w # x) = starts_with ''inf'' v"
    "starts_with ''nan'' (v @ w # x) = starts_with ''nan'' v"
    "starts_with ''0x'' (v @ w # x) = starts_with ''0x'' v"
    by (rule starts_with_extra [OF assms], simp add: isspace_def)+
  have nan: "scan_nan_chars (drop 3 (v @ w # x)) = scan_nan_chars (drop 3 v)"
    if "starts_with ''nan'' v"
    using starts_with_length [OF that] scan_nan_chars_extra [OF assms, of "drop 3 v" x] by simp
  have hexm: "scan_mantissa isxdigit (drop 2 (v @ w # x)) = scan_mantissa isxdigit (drop 2 v)"
    if "starts_with ''0x'' v"
    using starts_with_length [OF that] scan_mantissa_extra [OF assms, of isxdigit "drop 2 v" x]
      assms by (simp add: isspace_not)
  have hexe: "scan_exponent CHR ''p'' (drop (Suc (Suc m)) (v @ w # x)) =
      scan_exponent CHR ''p'' (drop (Suc (Suc m)) v)"
    if "starts_with ''0x'' v" "scan_mantissa isxdigit (drop 2 v) = Some m" for m
    using starts_with_length [OF that(1)] scan_mantissa_le [OF that(2)]
      scan_exponent_extra [OF assms, of "CHR ''p''" "drop (Suc (Suc m)) v" x] by simp
  have decm: "scan_mantissa isdigit (v @ w # x) = scan_mantissa isdigit v"
    using scan_mantissa_extra [OF assms, of isdigit v x] assms by (simp add: isspace_not)
  have dece: "scan_exponent CHR ''e'' (drop m (v @ w # x)) = scan_exponent CHR ''e'' (drop m v)"
    if "scan_mantissa isdigit v = Some m" for m
    using scan_mantissa_le [OF that] scan_exponent_extra [OF assms, of "CHR ''e''" "drop m v" x]
    by simp
  show ?thesis
    unfolding scan_number_def kw decm
    by (auto simp: nan hexm hexe dece simp del: drop_append split: option.splits)
qed

lemma strtod_extra:
  assumes "strtod s = Some (t, r)" and "isspace w"
  shows "strtod (s @ w # x) = Some (t, r @ w # x)"
proof -
  let ?r0 = "dropWhile isspace s"
  let ?sg = "scan_sign ?r0"
  from assms(1) obtain n where n: "scan_number (drop ?sg ?r0) = Some n"
    and t: "t = take (?sg + n) ?r0" and r: "r = drop (?sg + n) ?r0"
    by (auto simp: strtod_def Let_def split: option.splits)
  have ne: "?r0 \<noteq> []"
  proof
    assume "?r0 = []"
    with n show False
      by (simp add: scan_sign_def scan_number_def scan_mantissa_def starts_with_def)
  qed
  then obtain y where "y \<in> set s" "\<not> isspace y"
    by auto
  then have r0: "dropWhile isspace (s @ w # x) = ?r0 @ w # x"
    by (rule dropWhile_append1)
  have sg: "scan_sign (?r0 @ w # x) = ?sg"
    using assms(2) by (rule scan_sign_extra)
  have sgle: "?sg \<le> length ?r0"
    using ne by (cases ?r0) (auto simp: scan_sign_def)
  then have dr: "drop ?sg (?r0 @ w # x) = drop ?sg ?r0 @ w # x" by simp
  have n': "scan_number (drop ?sg ?r0 @ w # x) = Some n"
    using scan_number_extra [OF assms(2)] n by simp
  from scan_number_le [OF n] sgle have le: "?sg + n \<le> length ?r0" by simp
  show ?thesis
    unfolding strtod_def Let_def r0 sg dr n' t r using le by simp
qed


lemma parse_double_extra:
  assumes "parse_double E (Some s) = Some (v, r)" and "isspace w"
  shows "parse_double E (Some (s @ w # x)) = Some (v, r @ w # x)"
proof -
  from assms(1) obtain t where "strtod s = Some (t, r)" "v = d_of_text E t"
    by (auto simp: parse_double_def split: option.splits)
  with strtod_extra [of s t r w x] assms(2) show ?thesis
    by (simp add: parse_double_def)
qed

lemma parse_doubles_extra:
  assumes "isspace w"
  shows "parse_doubles E n idx (Some s) a = Some (a', p) \<Longrightarrow>
     \<exists>r. p = Some r \<and> parse_doubles E n idx (Some (s @ w # x)) a = Some (a', Some (r @ w # x))"
proof (induction n arbitrary: idx s a)
  case 0
  then show ?case by simp
next
  case (Suc n)
  from Suc.prems obtain v r where d: "parse_double E (Some s) = Some (v, r)"
    and rest: "parse_doubles E n (Suc idx) (Some r) (a[idx := v]) = Some (a', p)"
    by (auto split: option.splits)
  from parse_double_extra [OF d assms, of x] Suc.IH [OF rest] show ?case
    by simp
qed

text \<open>
  C10: what follows the last required value of a row is ignored. When a row holds its
  values, the same row with white space and any further text after it gives the same
  values, and the parser goes on with the next line all the same; so it is for a
  coordinate row of any shape and for the six values of a velocity row.
\<close>

theorem C10_extra_tokens_ignored:
  assumes "isspace w"
  shows "(parse_doubles E cols idx (Some row) a = Some (a', r) \<longrightarrow>
            parse_rows E (Suc rows) cols idx (s\<lparr>ptr := Some (row @ w # extra)\<rparr>) a =
              parse_rows E (Suc rows) cols idx (s\<lparr>ptr := Some row\<rparr>) a \<and>
            parse_rows E (Suc rows) cols idx (s\<lparr>ptr := Some (row @ w # extra)\<rparr>) a =
              parse_rows E rows cols (idx + cols) (next_line s) a') \<and>
         (parse_doubles E 6 0 (Some row) (vel f) = Some (v, r) \<longrightarrow>
            parse_velocity_row E (s\<lparr>ptr := Some (row @ w # extra)\<rparr>) f =
              parse_velocity_row E (s\<lparr>ptr := Some row\<rparr>) f \<and>
            parse_velocity_row E (s\<lparr>ptr := Some (row @ w # extra)\<rparr>) f =
              Inr (f\<lparr>vel := v\<rparr>, next_line s))"
proof (intro conjI impI)
  assume a: "parse_doubles E cols idx (Some row) a = Some (a', r)"
  from parse_doubles_extra [OF assms a, of extra] obtain q where
    x: "parse_doubles E cols idx (Some (row @ w # extra)) a = Some (a', Some (q @ w # extra))"
    by blast
  from a x show "parse_rows E (Suc rows) cols idx (s\<lparr>ptr := Some (row @ w # extra)\<rparr>) a =
      parse_rows E (Suc rows) cols idx (s\<lparr>ptr := Some row\<rparr>) a"
    by simp
  from x show "parse_rows E (Suc rows) cols idx (s\<lparr>ptr := Some (row @ w # extra)\<rparr>) a =
      parse_rows E rows cols (idx + cols) (next_line s) a'"
    by simp
next
  assume a: "parse_doubles E 6 0 (Some row) (vel f) = Some (v, r)"
  from parse_doubles_extra [OF assms a, of extra] obtain q where
    x: "parse_doubles E 6 0 (Some (row @ w # extra)) (vel f) = Some (v, Some (q @ w # extra))"
    by blast
  from a x show "parse_velocity_row E (s\<lparr>ptr := Some (row @ w # extra)\<rparr>) f =
      parse_velocity_row E (s\<lparr>ptr := Some row\<rparr>) f"
    by (simp add: parse_velocity_row_def)
  from x show "parse_velocity_row E (s\<lparr>ptr := Some (row @ w # extra)\<rparr>) f =
      Inr (f\<lparr>vel := v\<rparr>, next_line s)"
    by (simp add: parse_velocity_row_def)
qed

theorem C10_extra_tokens_ignored_witness:
  "isspace CHR '' '' \<and>
   parse_doubles sample_platform 6 0 (Some ''1 2 3 4 5 6'') (replicate 12 0) =
     Some ([1, 2, 3, 4, 5, 6, 0, 0, 0, 0, 0, 0], Some []) \<and>
   parse_rows sample_platform 1 6 0
     \<lparr>buffer = Some ''1 2 3 4 5 6 7 x'', ptr = Some ''1 2 3 4 5 6 7 x'', inp = []\<rparr>
     (replicate 12 0) =
     Inr ([1, 2, 3, 4, 5, 6, 0, 0, 0, 0, 0, 0], \<lparr>buffer = None, ptr = None, inp = []\<rparr>) \<and>
   parse_config sample_platform
     (Some ''units bohr\<newline>fragment a\<newline>1 2 3 4 5 6 7 x\<newline>velocity\<newline>1 2 3 4 5 6 y\<newline>'') =
   parse_config sample_platform
     (Some ''units bohr\<newline>fragment a\<newline>1 2 3 4 5 6\<newline>velocity\<newline>1 2 3 4 5 6\<newline>'') \<and>
   map_sum id n_frags (parse_config sample_platform
     (Some ''units bohr\<newline>fragment a\<newline>1 2 3 4 5 6 7 x\<newline>velocity\<newline>1 2 3 4 5 6 y\<newline>'')) =
     Inr 1 \<and>
   parse_config sample_platform (Some ''units bohr 7 x\<newline>fragment a\<newline>1 2 3 4 5 6\<newline>'') =
     Inl ONLY_ONE_OPTION_PER_LINE_IS_ALLOWED"
proof -
  let ?s = "\<lparr>buffer = Some ''1 2 3 4 5 6 7 x'', ptr = Some ''1 2 3 4 5 6 7 x'', inp = []\<rparr>"
  have h1: "isspace CHR '' ''" by code_simp
  have h2: "parse_doubles sample_platform 6 0 (Some ''1 2 3 4 5 6'') (replicate 12 0) =
     Some ([1, 2, 3, 4, 5, 6, 0, 0, 0, 0, 0, 0], Some [])"
    by code_simp
  have nl: "next_line ?s = \<lparr>buffer = None, ptr = None, inp = []\<rparr>" by code_simp
  from C10_extra_tokens_ignored [OF h1, where E = sample_platform and cols = 6 and idx = 0
      and row = "''1 2 3 4 5 6''" and a = "replicate 12 0"
      and a' = "[1, 2, 3, 4, 5, 6, 0, 0, 0, 0, 0, 0]" and r = "Some []" and rows = 0
      and s = ?s and extra = "''7 x''"] h2
  have "parse_rows sample_platform (Suc 0) 6 0 (?s\<lparr>ptr := Some (''1 2 3 4 5 6'' @ CHR '' '' # ''7 x'')\<rparr>)
      (replicate 12 0) =
      parse_rows sample_platform 0 6 (0 + 6) (next_line ?s) [1, 2, 3, 4, 5, 6, 0, 0, 0, 0, 0, 0]"
    by blast
  then have h3: "parse_rows sample_platform 1 6 0 ?s (replicate 12 0) =
      Inr ([1, 2, 3, 4, 5, 6, 0, 0, 0, 0, 0, 0], \<lparr>buffer = None, ptr = None, inp = []\<rparr>)"
    by (simp add: nl)
  have h4: "parse_config sample_platform
     (Some ''units bohr\<newline>fragment a\<newline>1 2 3 4 5 6 7 x\<newline>velocity\<newline>1 2 3 4 5 6 y\<newline>'') =
   parse_config sample_platform
     (Some ''units bohr\<newline>fragment a\<newline>1 2 3 4 5 6\<newline>velocity\<newline>1 2 3 4 5 6\<newline>'')"
    by code_simp
  have h5: "map_sum id n_frags (parse_config sample_platform
     (Some ''units bohr\<newline>fragment a\<newline>1 2 3 4 5 6 7 x\<newline>velocity\<newline>1 2 3 4 5 6 y\<newline>'')) =
     Inr 1"
    by code_simp
  have h6: "parse_config sample_platform (Some ''units bohr 7 x\<newline>fragment a\<newline>1 2 3 4 5 6\<newline>'') =
     Inl ONLY_ONE_OPTION_PER_LINE_IS_ALLOWED"
    by code_simp
  from h1 h2 h3 h4 h5 h6 show ?thesis by (intro conjI)
qed

subsection \<open>Lower case\<close>

lemma tolower_not_upper: "\<not> isupper (tolower c)"
proof (cases "isupper c")
  case True
  then have "of_char (char_of (of_char c + 32 :: nat)) = (of_char c + 32 :: nat)"
    by (simp add: isupper_def)
  with True show ?thesis by (simp add: tolower_def isupper_def)
next
  case False
  then show ?thesis by (simp add: tolower_def)
qed

lemma lower_case_map_tolower: "lower_case (map tolower str)"
  by (simp add: lower_case_def list_all_iff tolower_not_upper)

lemma lower_case_subset: "lower_case p \<Longrightarrow> set q \<subseteq> set p \<Longrightarrow> lower_case q"
  by (auto simp: lower_case_def list_all_iff)

lemma lower_cursor_next_line: "lower_cursor (next_line s)"
  by (simp add: lower_cursor_def next_line_def lower_case_map_tolower split: option.splits)

lemma lower_cursor_skip_space: "lower_cursor s \<Longrightarrow> lower_cursor (skip_space s)"
  by (auto simp: lower_cursor_def skip_space_def split: option.splits
      intro: lower_case_subset set_dropWhileD)

lemma parse_string_subset:
  assumes "parse_string (Some p) = Some (v, r)"
  shows "set v \<subseteq> set p"
proof -
  let ?q = "dropWhile isspace p"
  have q: "set ?q \<subseteq> set p" by (auto dest: set_dropWhileD)
  show ?thesis
  proof (cases ?q)
    case Nil
    with assms show ?thesis by (simp add: parse_string_def)
  next
    case (Cons c q')
    show ?thesis
    proof (cases "c = CHR 0x22")
      case True
      with assms Cons have "v = takeWhile (\<lambda>x. x \<noteq> CHR 0x22) q'"
        by (simp add: parse_string_def split: list.splits)
      then have "set v \<subseteq> set q'" by (auto dest: set_takeWhileD)
      with q Cons show ?thesis by auto
    next
      case False
      with assms Cons have "v = takeWhile (\<lambda>x. \<not> isspace x) ?q"
        by (simp add: parse_string_def)
      then have "set v \<subseteq> set ?q" by (auto dest: set_takeWhileD)
      with q show ?thesis by auto
    qed
  qed
qed


lemma parse_string_lower:
  "parse_string (Some p) = Some (v, r) \<Longrightarrow> lower_case p \<Longrightarrow> lower_case v"
  by (blast intro: lower_case_subset dest: parse_string_subset)

lemma defaults_lower:
  assumes "set_config_defaults E = Inr c0"
  shows "lower_strings E c0"
proof -
  have "lower_case ''.''" by code_simp
  with assms show ?thesis
    by (auto simp: set_config_defaults_def config_list_def at_member_def zero_config_def
        default_texts default_units parse_double_def lower_strings_def
        split: if_splits option.splits)
qed

lemma config_list_lower:
  assumes "e \<in> set (config_list E)" and "parse_fn e str c = Some (c', r)"
    and "lower_case str" and "lower_strings E c"
  shows "lower_strings E c'"
  using assms unfolding config_list_def
  by (auto simp: at_member_def lower_strings_def split: option.splits)
     (blast intro: parse_string_lower)+

lemma parse_field_loop_lower:
  "parse_field_loop es p c = Inr (q, c') \<Longrightarrow> set es \<subseteq> set (config_list E) \<Longrightarrow>
     lower_case p \<Longrightarrow> lower_strings E c \<Longrightarrow> lower_strings E c'"
proof (induction es)
  case Nil
  then show ?case by simp
next
  case (Cons e es)
  show ?case
  proof (cases "strneq (entry_name e) p (length (entry_name e))")
    case True
    let ?str = "dropWhile isspace (drop (length (entry_name e)) p)"
    have "set ?str \<subseteq> set p"
      by (auto dest: set_dropWhileD in_set_dropD)
    with Cons.prems(3) have "lower_case ?str" by (rule lower_case_subset)
    moreover from True Cons.prems(1) obtain r where "parse_fn e ?str c = Some (c', r)"
      by (auto split: option.splits if_splits)
    moreover from Cons.prems(2) have "e \<in> set (config_list E)" by simp
    ultimately show ?thesis using Cons.prems(4) by (blast intro: config_list_lower)
  next
    case False
    with Cons show ?thesis by simp
  qed
qed

lemma parse_field_lower:
  assumes "parse_field E s c = Inr (s', c')" and "lower_cursor s" and "lower_strings E c"
  shows "lower_strings E c'"
proof -
  from assms(1) obtain p q where "ptr s = Some p" "parse_field_loop (config_list E) p c = Inr (q, c')"
    by (auto simp: parse_field_def split: option.splits sum.splits)
  with assms(2,3) show ?thesis
    using parse_field_loop_lower [of "config_list E" p c q c' E]
    by (simp add: lower_cursor_def)
qed

lemma parse_rows_lower:
  "parse_rows E rows cols idx s a = Inr (a', s') \<Longrightarrow> lower_cursor s \<Longrightarrow> lower_cursor s'"
  by (induction rows arbitrary: idx s a)
     (auto split: option.splits simp: lower_cursor_next_line)

lemma parse_velocity_lower:
  "parse_velocity E s f = Inr (f', s') \<Longrightarrow> lower_cursor s \<Longrightarrow> lower_cursor s'"
  by (auto simp: parse_velocity_def parse_velocity_row_def Let_def lower_cursor_next_line
      lower_cursor_skip_space split: option.splits if_splits)

lemma parse_frag_lower:
  assumes "parse_frag E s ct = Inr (f, s')" and "lower_cursor s"
  shows "lower_case (name f) \<and> lower_cursor s'"
proof -
  from assms(1) obtain nm p a s1 where nm: "parse_string (ptr s) = Some (nm, p)"
    and rows: "parse_rows E (n_rows ct) (n_cols ct) 0 (next_line s) (replicate 12 (d_zero E)) = Inr (a, s1)"
    and v: "parse_velocity E s1 \<lparr>name = nm, coord = a, vel = replicate 6 (d_zero E)\<rparr> = Inr (f, s')"
    by (auto simp: parse_frag_def split: option.splits sum.splits)
  from nm obtain l where l: "ptr s = Some l" by (cases "ptr s") (auto simp: parse_string_def)
  with assms(2) nm have "lower_case nm"
    by (auto simp: lower_cursor_def intro: parse_string_lower)
  moreover from parse_velocity_coord [OF v] have "name f = nm" by simp
  moreover have "lower_cursor s1"
    using rows lower_cursor_next_line by (rule parse_rows_lower)
  with v have "lower_cursor s'" by (rule parse_velocity_lower)
  ultimately show ?thesis by simp
qed

lemma lower_cursor_drop:
  "lower_cursor s \<Longrightarrow> ptr s = Some q \<Longrightarrow> lower_cursor (s\<lparr>ptr := Some (drop n q)\<rparr>)"
  by (auto simp: lower_cursor_def intro: lower_case_subset dest: in_set_dropD)

lemma config_step_lower:
  assumes "config_step E s c = Inr (s1, c1)" and "lower_cursor s" and "lower_strings E c"
  shows "lower_cursor s1 \<and> lower_strings E c1"
proof -
  have sk: "lower_cursor (skip_space s)" using assms(2) by (rule lower_cursor_skip_space)
  have frag: "lower_case (name f) \<and> lower_cursor t"
    if "ptr (skip_space s) = Some q" "parse_frag E (skip_space s\<lparr>ptr := Some (drop n q)\<rparr>) ct = Inr (f, t)"
    for q n ct f t
    using that(2) lower_cursor_drop [OF sk that(1)] by (rule parse_frag_lower)
  have field: "lower_strings E c'" if "parse_field E (skip_space s) c = Inr (t, c')" for t c'
    using that sk assms(3) by (rule parse_field_lower)
  from assms(1,3) show ?thesis
    by (auto simp: config_step_def Let_def lower_cursor_next_line
        split: option.splits if_splits sum.splits dest: frag field)
       (auto simp: lower_strings_def dest: frag)
qed


lemma convert_units_strings:
  "map name (frags (convert_units E c)) = map name (frags c)"
  "userlib_path (convert_units E c) = userlib_path c"
  "fraglib_path (convert_units E c) = fraglib_path c"
  by (simp_all add: convert_units_def comp_def)

lemma lower_strings_convert_units: "lower_strings E (convert_units E c) = lower_strings E c"
proof -
  have "list_all (\<lambda>f. lower_case (name f)) (frags (convert_units E c)) =
      list_all lower_case (map name (frags (convert_units E c)))"
    by (simp add: list_all_iff)
  also have "\<dots> = list_all (\<lambda>f. lower_case (name f)) (frags c)"
    by (simp add: convert_units_strings list_all_iff)
  finally show ?thesis
    by (simp add: lower_strings_def convert_units_strings)
qed

text \<open>
  C9, amended: in a returned record every fragment name and the user library path have
  no upper-case character, and the fragment library path has none unless it is still
  the default, which is the first token of \<^verbatim>\<open>EFP_DATA_DIR\<close> as the build wrote it: the
  lines of the file are lower-cased before any parser reads them, the default texts of
  the option table are not.
\<close>

theorem C9_strings_lower_case:
  assumes "parse_config E file = Inr cfg"
  shows "list_all (\<lambda>f. lower_case (name f)) (frags cfg) \<and>
         (\<exists>p. userlib_path cfg = Some p \<and> lower_case p) \<and>
         (\<exists>p. fraglib_path cfg = Some p \<and>
              (lower_case p \<or> (\<exists>r. parse_string (Some (EFP_DATA_DIR E)) = Some (p, r))))"
proof -
  from assms obtain bytes c0 raw where c0: "set_config_defaults E = Inr c0"
    and raw: "read_loop E (first_line bytes) c0 = Inr raw" and cfg: "cfg = convert_units E raw"
    by (rule parse_config_InrE)
  let ?I = "\<lambda>s c. lower_cursor s \<and> lower_strings E c"
  have "?I (first_line bytes) c0"
    using defaults_lower [OF c0] by (simp add: first_line_def lower_cursor_next_line)
  with raw have "\<exists>s'. ?I s' raw"
    by (rule read_loop_invariant) (blast dest: config_step_lower)
  then have "lower_strings E cfg"
    by (simp add: cfg lower_strings_convert_units)
  then show ?thesis
    by (auto simp: lower_strings_def split: option.splits)
qed

theorem C9_strings_lower_case_witness:
  "map_sum id (\<lambda>c. (map name (frags c), fraglib_path c, userlib_path c))
     (parse_config sample_platform
        (Some ''fraglib_path \"/Opt/EFP\"\<newline>fragment Water\<newline>0 0 0 0 0 0\<newline>'')) =
     Inr ([''water''], Some ''/opt/efp'', Some ''.'') \<and>
   lower_case ''water''"
proof -
  let ?F = "''fraglib_path \"/Opt/EFP\"\<newline>fragment Water\<newline>0 0 0 0 0 0\<newline>''"
  have e: "map_sum id (\<lambda>c. (map name (frags c), fraglib_path c, userlib_path c))
     (parse_config sample_platform (Some ?F)) = Inr ([''water''], Some ''/opt/efp'', Some ''.'')"
    by code_simp
  then obtain cfg where cfg: "parse_config sample_platform (Some ?F) = Inr cfg"
    by (auto dest: map_sum_InrD)
  with e have n: "map name (frags cfg) = [''water'']" by simp
  from C9_strings_lower_case [OF cfg] have "list_all lower_case (map name (frags cfg))"
    by (simp add: list_all_iff)
  with n have "lower_case ''water''" by simp
  with e show ?thesis by (rule conjI)
qed

theorem C9_strings_lower_case_counterexample:
  "map_sum id fraglib_path
     (parse_config (sample_platform\<lparr>EFP_DATA_DIR := ''/opt/EFP''\<rparr>)
        (Some ''fragment a\<newline>0 0 0 0 0 0\<newline>'')) = Inr (Some ''/opt/EFP'') \<and>
   \<not> lower_case ''/opt/EFP''"
  by code_simp

subsection \<open>Fragment names\<close>

lemma empty_quotes_sublist: "empty_quotes q \<Longrightarrow> sublist q p \<Longrightarrow> empty_quotes p"
  unfolding empty_quotes_def by (rule sublist_order.order_trans)

lemma tolower_quote: "tolower c = CHR 0x22 \<Longrightarrow> c = CHR 0x22"
proof (cases "isupper c")
  case True
  assume a: "tolower c = CHR 0x22"
  from True have "of_char (char_of (of_char c + 32 :: nat)) = (of_char c + 32 :: nat)"
    by (simp add: isupper_def)
  moreover from a True have "of_char (char_of (of_char c + 32 :: nat)) = (34 :: nat)"
    by (simp add: tolower_def)
  ultimately show ?thesis using True by (simp add: isupper_def)
next
  case False
  assume "tolower c = CHR 0x22"
  with False show ?thesis by (simp add: tolower_def)
qed

lemma empty_quotes_map_tolower:
  assumes "empty_quotes (map tolower str)"
  shows "empty_quotes str"
proof -
  from assms obtain ps ss where "map tolower str = ps @ [CHR 0x22, CHR 0x22] @ ss"
    by (auto simp: empty_quotes_def sublist_def)
  then obtain us vs where str: "str = us @ vs" and "[CHR 0x22, CHR 0x22] @ ss = map tolower vs"
    by (auto simp: map_eq_append_conv)
  then obtain a b ws where vs: "vs = a # b # ws" and "tolower a = CHR 0x22" "tolower b = CHR 0x22"
    by (cases vs; cases "tl vs") auto
  then have "a = CHR 0x22" "b = CHR 0x22" by (simp_all add: tolower_quote)
  with str vs have "str = us @ [CHR 0x22, CHR 0x22] @ ws" by simp
  then show ?thesis unfolding empty_quotes_def sublist_def by blast
qed

lemma read_line_loop_split:
  "read_line_loop bytes acc = Some (l, rest) \<Longrightarrow> \<exists>sep. acc @ bytes = l @ sep @ rest"
proof (induction bytes acc rule: read_line_loop.induct)
  case (1 acc)
  then show ?case by (auto split: if_splits)
next
  case (2 ch rest' acc)
  show ?case
  proof (cases "ch = CHR 0x0A")
    case True
    with "2.prems" have "l = acc" "rest = rest'" by simp_all
    then have "acc @ ch # rest' = l @ [ch] @ rest" by simp
    then show ?thesis by blast
  next
    case False
    with 2 show ?thesis by simp
  qed
qed

lemma read_line_sublists:
  assumes "read_line bytes = Some (l, rest)"
  shows "sublist l bytes" and "sublist rest bytes"
proof -
  from assms obtain sep where b: "bytes = l @ sep @ rest"
    using read_line_loop_split [of bytes "[]" l rest] by (auto simp: read_line_def)
  show "sublist l bytes" unfolding b by (rule sublist_append_rightI)
  have "sublist rest ((l @ sep) @ rest)" by (rule sublist_append_leftI)
  then show "sublist rest bytes" unfolding b by simp
qed

lemma quotes_filled_next_line:
  assumes "\<not> empty_quotes (inp s)"
  shows "quotes_filled (next_line s)"
proof (cases "read_line (inp s)")
  case None
  with assms show ?thesis by (simp add: quotes_filled_def next_line_def)
next
  case (Some a)
  obtain l rest where a: "a = (l, rest)" by (cases a)
  from read_line_sublists [OF Some [unfolded a]] have l: "sublist l (inp s)"
    and r: "sublist rest (inp s)" .
  have "sublist (c_str l) l" unfolding c_str_def by (rule sublist_takeWhile)
  then have "sublist (c_str l) (inp s)" using l by (rule sublist_order.order_trans)
  with assms have "\<not> empty_quotes (map tolower (c_str l))"
    by (blast dest: empty_quotes_map_tolower empty_quotes_sublist)
  moreover from assms r have "\<not> empty_quotes rest"
    by (blast dest: empty_quotes_sublist)
  ultimately show ?thesis using Some a by (simp add: quotes_filled_def next_line_def)
qed

lemma quotes_filled_next_line': "quotes_filled s \<Longrightarrow> quotes_filled (next_line s)"
  by (rule quotes_filled_next_line) (simp add: quotes_filled_def)

lemma quotes_filled_skip_space: "quotes_filled s \<Longrightarrow> quotes_filled (skip_space s)"
  by (auto simp: quotes_filled_def skip_space_def split: option.splits
      dest: empty_quotes_sublist [OF _ sublist_dropWhile])

lemma quotes_filled_drop:
  "quotes_filled s \<Longrightarrow> ptr s = Some q \<Longrightarrow> quotes_filled (s\<lparr>ptr := Some (drop n q)\<rparr>)"
  by (auto simp: quotes_filled_def dest: empty_quotes_sublist [OF _ sublist_drop])

lemma parse_string_empty:
  "parse_string (Some p) = Some (nm, r) \<Longrightarrow>
     nm = [] \<longleftrightarrow> (\<exists>t. dropWhile isspace p = CHR 0x22 # CHR 0x22 # t)"
proof -
  assume a: "parse_string (Some p) = Some (nm, r)"
  let ?q = "dropWhile isspace p"
  show ?thesis
  proof (cases ?q)
    case Nil
    with a show ?thesis by (simp add: parse_string_def)
  next
    case (Cons c q')
    then have c: "\<not> isspace c" by (metis hd_dropWhile list.distinct(1) list.sel(1))
    show ?thesis
    proof (cases "c = CHR 0x22")
      case True
      with a Cons obtain d r' where d: "dropWhile (\<lambda>x. x \<noteq> CHR 0x22) q' = d # r'"
        and nm: "nm = takeWhile (\<lambda>x. x \<noteq> CHR 0x22) q'"
        by (auto simp: parse_string_def split: list.splits)
      from d have q': "q' \<noteq> []" by auto
      have "nm = [] \<longleftrightarrow> hd q' = CHR 0x22"
        using q' unfolding nm by (cases q') auto
      also have "\<dots> \<longleftrightarrow> (\<exists>t. q' = CHR 0x22 # t)"
        using q' by (cases q') auto
      finally show ?thesis using Cons True by simp
    next
      case False
      with a Cons c have "nm = takeWhile (\<lambda>x. \<not> isspace x) (c # q')"
        by (simp add: parse_string_def)
      with c False Cons show ?thesis by simp
    qed
  qed
qed


lemma parse_rows_quotes:
  "parse_rows E rows cols idx s a = Inr (a', s') \<Longrightarrow> quotes_filled s \<Longrightarrow> quotes_filled s'"
proof (induction rows arbitrary: idx s a)
  case 0
  then show ?case by simp
next
  case (Suc rows)
  from Suc.prems(1) obtain a1 p where
    "parse_rows E rows cols (idx + cols) (next_line s) a1 = Inr (a', s')"
    by (auto split: option.splits)
  then show ?case
    using quotes_filled_next_line' [OF Suc.prems(2)] by (rule Suc.IH)
qed

lemma parse_velocity_quotes:
  "parse_velocity E s f = Inr (f', s') \<Longrightarrow> quotes_filled s \<Longrightarrow> quotes_filled s'"
  by (auto simp: parse_velocity_def parse_velocity_row_def Let_def
      quotes_filled_next_line' quotes_filled_skip_space split: option.splits if_splits)

lemma parse_frag_name_empty:
  assumes "parse_frag E s ct = Inr (f, s')"
  shows "name f = [] \<longleftrightarrow> (\<exists>p t. ptr s = Some p \<and> dropWhile isspace p = CHR 0x22 # CHR 0x22 # t)"
proof -
  from assms obtain nm r a s1 where nm: "parse_string (ptr s) = Some (nm, r)"
    and v: "parse_velocity E s1 \<lparr>name = nm, coord = a, vel = replicate 6 (d_zero E)\<rparr> = Inr (f, s')"
    by (auto simp: parse_frag_def split: option.splits sum.splits)
  from nm obtain p where p: "ptr s = Some p" by (cases "ptr s") (auto simp: parse_string_def)
  from parse_velocity_coord [OF v] have "name f = nm" by simp
  with parse_string_empty [OF nm [unfolded p]] p show ?thesis by simp
qed

lemma parse_frag_quotes:
  assumes "parse_frag E s ct = Inr (f, s')" and "quotes_filled s"
  shows "name f \<noteq> [] \<and> quotes_filled s'"
proof -
  from assms(1) obtain nm r a s1 where
    rows: "parse_rows E (n_rows ct) (n_cols ct) 0 (next_line s) (replicate 12 (d_zero E)) = Inr (a, s1)"
    and v: "parse_velocity E s1 \<lparr>name = nm, coord = a, vel = replicate 6 (d_zero E)\<rparr> = Inr (f, s')"
    by (auto simp: parse_frag_def split: option.splits sum.splits)
  have "name f \<noteq> []"
  proof
    assume "name f = []"
    with parse_frag_name_empty [OF assms(1)] obtain p t where p: "ptr s = Some p"
      and q: "dropWhile isspace p = CHR 0x22 # CHR 0x22 # t" by blast
    have "sublist [CHR 0x22, CHR 0x22] (dropWhile isspace p)"
      unfolding q by (rule prefix_imp_sublist) simp
    then have "empty_quotes p"
      unfolding empty_quotes_def using sublist_dropWhile by (rule sublist_order.order_trans)
    with assms(2) p show False by (simp add: quotes_filled_def)
  qed
  moreover have "quotes_filled s1"
    using rows quotes_filled_next_line' [OF assms(2)] by (rule parse_rows_quotes)
  with v have "quotes_filled s'" by (rule parse_velocity_quotes)
  ultimately show ?thesis by simp
qed

lemma config_step_quotes:
  assumes "config_step E s c = Inr (s1, c1)" and "quotes_filled s" and "names_given c"
  shows "quotes_filled s1 \<and> names_given c1"
proof -
  have sk: "quotes_filled (skip_space s)" using assms(2) by (rule quotes_filled_skip_space)
  have nl: "quotes_filled (next_line s)" using assms(2) by (rule quotes_filled_next_line')
  have frag: "name f \<noteq> [] \<and> quotes_filled t"
    if "ptr (skip_space s) = Some q" "parse_frag E (skip_space s\<lparr>ptr := Some (drop n q)\<rparr>) ct = Inr (f, t)"
    for q n ct f t
    using that(2) quotes_filled_drop [OF sk that(1)] by (rule parse_frag_quotes)
  have field: "frags c' = frags c \<and> quotes_filled (next_line t)"
    if "parse_field E (skip_space s) c = Inr (t, c')" for t c'
    using parse_field_frame [OF that] nl by simp
  from assms(1,3) show ?thesis
    by (auto simp: config_step_def Let_def nl names_given_def
        split: option.splits if_splits sum.splits dest: frag field)
qed

text \<open>
  C3, amended: a fragment's name is empty exactly when it was written as the empty
  quoted string, two double quotes after the white space that follows the fragment
  keyword; a bare name and a quoted name with text have at least one character. So
  every fragment of a record loaded from a file without two adjacent double quotes has
  a name of at least one character.
\<close>

theorem C3_fragment_names:
  "(parse_frag E s ct = Inr (f, s') \<longrightarrow>
      (name f = [] \<longleftrightarrow>
         (\<exists>p t. ptr s = Some p \<and> dropWhile isspace p = CHR 0x22 # CHR 0x22 # t))) \<and>
   (parse_config E (Some bytes) = Inr cfg \<and> \<not> empty_quotes bytes \<longrightarrow>
      list_all (\<lambda>f. name f \<noteq> []) (frags cfg))"
proof (intro conjI impI)
  assume "parse_frag E s ct = Inr (f, s')"
  then show "name f = [] \<longleftrightarrow>
      (\<exists>p t. ptr s = Some p \<and> dropWhile isspace p = CHR 0x22 # CHR 0x22 # t)"
    by (rule parse_frag_name_empty)
next
  assume a: "parse_config E (Some bytes) = Inr cfg \<and> \<not> empty_quotes bytes"
  then obtain c0 raw where c0: "set_config_defaults E = Inr c0"
    and raw: "read_loop E (first_line bytes) c0 = Inr raw" and cfg: "cfg = convert_units E raw"
    by (auto elim: parse_config_InrE)
  let ?I = "\<lambda>s c. quotes_filled s \<and> names_given c"
  have "quotes_filled (first_line bytes)"
    unfolding first_line_def using a by (intro quotes_filled_next_line) simp
  then have "?I (first_line bytes) c0"
    using set_config_defaults_frags [OF c0] by (simp add: names_given_def)
  with raw have "\<exists>s'. ?I s' raw"
    by (rule read_loop_invariant) (blast dest: config_step_quotes)
  then have "list_all (\<lambda>f. name f \<noteq> []) (frags raw)"
    by (simp add: names_given_def)
  then have "list_all (\<lambda>nm. nm \<noteq> []) (map name (frags raw))"
    by (simp add: list_all_iff)
  then have "list_all (\<lambda>nm. nm \<noteq> []) (map name (frags cfg))"
    by (simp only: cfg convert_units_strings)
  then show "list_all (\<lambda>f. name f \<noteq> []) (frags cfg)"
    by (simp add: list_all_iff)
qed

theorem C3_fragment_names_witness:
  "map_sum id (\<lambda>c. map name (frags c))
     (parse_config sample_platform (Some ''fragment \"w\"\<newline>0 0 0 0 0 0\<newline>fragment h2o\<newline>0 0 0 0 0 0\<newline>'')) =
     Inr [''w'', ''h2o''] \<and>
   \<not> empty_quotes ''fragment \"w\"\<newline>0 0 0 0 0 0\<newline>fragment h2o\<newline>0 0 0 0 0 0\<newline>'' \<and>
   list_all (\<lambda>nm. nm \<noteq> []) [''w'', ''h2o'']"
proof -
  let ?F = "''fragment \"w\"\<newline>0 0 0 0 0 0\<newline>fragment h2o\<newline>0 0 0 0 0 0\<newline>''"
  have e: "map_sum id (\<lambda>c. map name (frags c)) (parse_config sample_platform (Some ?F)) =
      Inr [''w'', ''h2o'']"
    by code_simp
  have q: "\<not> empty_quotes ?F" by code_simp
  from e obtain cfg where cfg: "parse_config sample_platform (Some ?F) = Inr cfg"
    by (auto dest: map_sum_InrD)
  with e have n: "map name (frags cfg) = [''w'', ''h2o'']" by simp
  from C3_fragment_names [of sample_platform _ _ _ _ ?F cfg] cfg q
  have "list_all (\<lambda>f. name f \<noteq> []) (frags cfg)" by blast
  then have "list_all (\<lambda>nm. nm \<noteq> []) (map name (frags cfg))"
    by (simp add: list_all_iff)
  with n have "list_all (\<lambda>nm. nm \<noteq> []) [''w'', ''h2o'']" by simp
  with e q show ?thesis by (intro conjI)
qed

theorem C3_fragment_names_counterexample:
  "map_sum id (\<lambda>c. map name (frags c))
     (parse_config sample_platform (Some ''fragment \"\"\<newline>0 0 0 0 0 0\<newline>'')) = Inr [[]]"
  by code_simp

subsection \<open>Fragment blocks\<close>

lemma parse_doubles_None:
  "parse_doubles E n idx p a = None \<longleftrightarrow> row_values E n p = None"
  by (induction n arbitrary: idx p a) (auto split: option.splits)

lemma parse_doubles_values:
  "parse_doubles E n idx p a = Some (a', q) \<Longrightarrow> idx + n \<le> length a \<Longrightarrow>
     row_values E n p = Some (take n (drop idx a')) \<and> take idx a' = take idx a \<and>
     length a' = length a"
proof (induction n arbitrary: idx p a)
  case 0
  then show ?case by simp
next
  case (Suc n)
  from Suc.prems(1) obtain v e where d: "parse_double E p = Some (v, e)"
    and rest: "parse_doubles E n (Suc idx) (Some e) (a[idx := v]) = Some (a', q)"
    by (auto split: option.splits)
  from Suc.prems(2) have le: "Suc idx + n \<le> length (a[idx := v])" and lt: "idx < length a"
    by simp_all
  from Suc.IH [OF rest le] have vs: "row_values E n (Some e) = Some (take n (drop (Suc idx) a'))"
    and tk: "take (Suc idx) a' = take (Suc idx) (a[idx := v])" and len: "length a' = length a"
    by simp_all
  from tk lt len have "a' ! idx = v"
    by (metis lessI nth_list_update_eq nth_take)
  with lt len have dr: "drop idx a' = v # drop (Suc idx) a'"
    by (metis Cons_nth_drop_Suc)
  from tk have "take idx (take (Suc idx) a') = take idx (take (Suc idx) (a[idx := v]))"
    by simp
  then have "take idx a' = take idx a"
    by (simp add: min_def)
  with d vs dr len show ?case by simp
qed

lemma parse_rows_error:
  "parse_rows E rows cols idx s a = Inl e \<Longrightarrow> e = INCORRECT_FRAGMENT_COORDINATES_FORMAT"
  by (induction rows arbitrary: idx s a) (auto split: option.splits)

lemma parse_rows_values:
  "parse_rows E rows cols idx s a = Inr (a', s') \<Longrightarrow> idx + rows * cols \<le> length a \<Longrightarrow>
     (\<forall>i<rows. row_values E cols (ptr ((next_line ^^ i) s)) =
        Some (take cols (drop (idx + i * cols) a'))) \<and>
     take idx a' = take idx a \<and> length a' = length a"
proof (induction rows arbitrary: idx s a)
  case 0
  then show ?case by simp
next
  case (Suc rows)
  from Suc.prems(1) obtain a1 q where d: "parse_doubles E cols idx (ptr s) a = Some (a1, q)"
    and rest: "parse_rows E rows cols (idx + cols) (next_line s) a1 = Inr (a', s')"
    by (auto split: option.splits)
  from Suc.prems(2) have le0: "idx + cols \<le> length a" by simp
  from parse_doubles_values [OF d le0] have v0: "row_values E cols (ptr s) = Some (take cols (drop idx a1))"
    and tk0: "take idx a1 = take idx a" and len0: "length a1 = length a"
    by simp_all
  from Suc.prems(2) len0 have le: "idx + cols + rows * cols \<le> length a1" by simp
  from Suc.IH [OF rest le] have
    vs: "\<forall>i<rows. row_values E cols (ptr ((next_line ^^ i) (next_line s))) =
        Some (take cols (drop (idx + cols + i * cols) a'))"
    and tk: "take (idx + cols) a' = take (idx + cols) a1" and len: "length a' = length a1"
    by simp_all
  have first: "take cols (drop idx a') = take cols (drop idx a1)"
  proof -
    have "take cols (drop idx a') = drop idx (take (idx + cols) a')"
      by (simp add: drop_take add.commute)
    also have "\<dots> = drop idx (take (idx + cols) a1)" by (simp only: tk)
    also have "\<dots> = take cols (drop idx a1)"
      by (simp add: drop_take add.commute)
    finally show ?thesis .
  qed
  have "take idx a' = take idx (take (idx + cols) a')" by (simp add: min_def)
  also have "\<dots> = take idx (take (idx + cols) a1)" by (simp only: tk)
  also have "\<dots> = take idx a" by (simp add: min_def tk0)
  finally have pre: "take idx a' = take idx a" .
  have "row_values E cols (ptr ((next_line ^^ i) s)) = Some (take cols (drop (idx + i * cols) a'))"
    if "i < Suc rows" for i
  proof (cases i)
    case 0
    with v0 first show ?thesis by simp
  next
    case (Suc k)
    with that have "k < rows" by simp
    with vs have "row_values E cols (ptr ((next_line ^^ k) (next_line s))) =
        Some (take cols (drop (idx + cols + k * cols) a'))" by blast
    then show ?thesis
      by (simp add: Suc funpow_swap1 add.assoc)
  qed
  with pre len len0 show ?case by simp
qed


lemma block_fits: "n_rows ct * n_cols ct \<le> 12"
  by (cases ct) (simp_all add: n_rows_def n_cols_def)

lemma parse_frag_block:
  assumes "parse_frag E s ct = Inr (f, s')"
  shows "\<exists>r. parse_string (ptr s) = Some (name f, r)"
    and "\<forall>i<n_rows ct. row_values E (n_cols ct) (ptr ((next_line ^^ Suc i) s)) =
           Some (take (n_cols ct) (drop (i * n_cols ct) (coord f)))"
proof -
  from assms obtain nm r a s1 where nm: "parse_string (ptr s) = Some (nm, r)"
    and rows: "parse_rows E (n_rows ct) (n_cols ct) 0 (next_line s) (replicate 12 (d_zero E)) = Inr (a, s1)"
    and v: "parse_velocity E s1 \<lparr>name = nm, coord = a, vel = replicate 6 (d_zero E)\<rparr> = Inr (f, s')"
    by (auto simp: parse_frag_def split: option.splits sum.splits)
  from parse_velocity_coord [OF v] have f: "name f = nm" "coord f = a" by simp_all
  from nm f show "\<exists>r. parse_string (ptr s) = Some (name f, r)" by simp
  have "0 + n_rows ct * n_cols ct \<le> length (replicate 12 (d_zero E))"
    using block_fits [of ct] by simp
  from parse_rows_values [OF rows this] f
  show "\<forall>i<n_rows ct. row_values E (n_cols ct) (ptr ((next_line ^^ Suc i) s)) =
           Some (take (n_cols ct) (drop (i * n_cols ct) (coord f)))"
    by (simp add: funpow_swap1)
qed

lemma parse_frag_short_row:
  assumes "parse_string (ptr s) \<noteq> None" and "i < n_rows ct"
    and "row_values E (n_cols ct) (ptr ((next_line ^^ Suc i) s)) = None"
  shows "parse_frag E s ct = Inl INCORRECT_FRAGMENT_COORDINATES_FORMAT"
proof -
  from assms(1) obtain nm r where nm: "parse_string (ptr s) = Some (nm, r)" by auto
  let ?rows = "parse_rows E (n_rows ct) (n_cols ct) 0 (next_line s) (replicate 12 (d_zero E))"
  show ?thesis
  proof (cases ?rows)
    case (Inl e)
    then have "e = INCORRECT_FRAGMENT_COORDINATES_FORMAT" by (rule parse_rows_error)
    with Inl nm show ?thesis by (simp add: parse_frag_def)
  next
    case (Inr b)
    obtain a s1 where b: "b = (a, s1)" by (cases b)
    have "0 + n_rows ct * n_cols ct \<le> length (replicate 12 (d_zero E))"
      using block_fits [of ct] by simp
    from parse_rows_values [OF Inr [unfolded b] this] assms(2)
    have "row_values E (n_cols ct) (ptr ((next_line ^^ i) (next_line s))) \<noteq> None"
      by simp
    with assms(3) show ?thesis by (simp add: funpow_swap1)
  qed
qed

text \<open>
  C2, amended: the name of a fragment is read from the rest of its keyword line, and
  its coordinate rows are the lines that follow, one row per line: row \<open>i\<close> is the
  \<open>i\<close>-th line after the keyword line and gives the values of the array from
  \<open>i\<close> times the number of columns on. The shape is the one of the coordinate
  representation the record holds when the keyword line is reached: one row of six
  values for xyzabc, three rows of three for points, four rows of three for rotmat. A
  row that lacks a value aborts the load with the incorrect-coordinates error; so does a
  keyword line with nothing after it in the file, whatever stands after the name.
\<close>

theorem C2_fragment_block:
  "(ptr s = Some p \<and> is_fragment_line p \<longrightarrow>
      config_step E s c =
        (case parse_frag E (s\<lparr>ptr := Some (drop (length ''fragment'') (dropWhile isspace p))\<rparr>)
                (coord_type c) of
           Inl e \<Rightarrow> Inl e
         | Inr (f, s') \<Rightarrow> Inr (s', c\<lparr>frags := frags c @ [f]\<rparr>))) \<and>
   (parse_frag E s ct = Inr (f, s') \<longrightarrow>
      (\<exists>r. parse_string (ptr s) = Some (name f, r)) \<and>
      (\<forall>i<n_rows ct. row_values E (n_cols ct) (ptr ((next_line ^^ Suc i) s)) =
         Some (take (n_cols ct) (drop (i * n_cols ct) (coord f))))) \<and>
   (parse_string (ptr s) \<noteq> None \<and> i < n_rows ct \<and>
    row_values E (n_cols ct) (ptr ((next_line ^^ Suc i) s)) = None \<longrightarrow>
      parse_frag E s ct = Inl INCORRECT_FRAGMENT_COORDINATES_FORMAT) \<and>
   (parse_string (ptr s) \<noteq> None \<and> inp s = [] \<longrightarrow>
      parse_frag E s ct = Inl INCORRECT_FRAGMENT_COORDINATES_FORMAT) \<and>
   (n_rows EFP_COORD_TYPE_XYZABC, n_cols EFP_COORD_TYPE_XYZABC) = (1, 6) \<and>
   (n_rows EFP_COORD_TYPE_POINTS, n_cols EFP_COORD_TYPE_POINTS) = (3, 3) \<and>
   (n_rows EFP_COORD_TYPE_ROTMAT, n_cols EFP_COORD_TYPE_ROTMAT) = (4, 3)"
proof (intro conjI impI)
  assume "ptr s = Some p \<and> is_fragment_line p"
  then show "config_step E s c =
        (case parse_frag E (s\<lparr>ptr := Some (drop (length ''fragment'') (dropWhile isspace p))\<rparr>)
                (coord_type c) of
           Inl e \<Rightarrow> Inl e
         | Inr (f, s') \<Rightarrow> Inr (s', c\<lparr>frags := frags c @ [f]\<rparr>))"
    by (blast intro: config_step_fragment_line)
next
  assume a: "parse_frag E s ct = Inr (f, s')"
  then show "\<exists>r. parse_string (ptr s) = Some (name f, r)"
    by (rule parse_frag_block)
  from a show "\<forall>i<n_rows ct. row_values E (n_cols ct) (ptr ((next_line ^^ Suc i) s)) =
         Some (take (n_cols ct) (drop (i * n_cols ct) (coord f)))"
    by (rule parse_frag_block)
next
  assume "parse_string (ptr s) \<noteq> None \<and> i < n_rows ct \<and>
    row_values E (n_cols ct) (ptr ((next_line ^^ Suc i) s)) = None"
  then show "parse_frag E s ct = Inl INCORRECT_FRAGMENT_COORDINATES_FORMAT"
    by (blast intro: parse_frag_short_row)
next
  assume a: "parse_string (ptr s) \<noteq> None \<and> inp s = []"
  then have "ptr (next_line s) = None"
    by (simp add: next_line_def read_line_def)
  moreover have "0 < n_rows ct" "0 < n_cols ct"
    by (cases ct; simp add: n_rows_def n_cols_def)+
  ultimately have "row_values E (n_cols ct) (ptr ((next_line ^^ Suc 0) s)) = None"
    by (cases "n_cols ct") (simp_all add: parse_double_def)
  with a \<open>0 < n_rows ct\<close> show "parse_frag E s ct = Inl INCORRECT_FRAGMENT_COORDINATES_FORMAT"
    by (blast intro: parse_frag_short_row)
qed (simp_all add: n_rows_def n_cols_def)

theorem C2_fragment_block_witness:
  "ptr \<lparr>buffer = Some ''fragment \"a\" 0 0 0 0 0 0'', ptr = Some '' \"a\" 0 0 0 0 0 0'', inp = []\<rparr> =
     Some '' \"a\" 0 0 0 0 0 0'' \<and>
   parse_string (Some '' \"a\" 0 0 0 0 0 0'') = Some (''a'', '' 0 0 0 0 0 0'') \<and>
   parse_frag sample_platform
     \<lparr>buffer = Some ''fragment \"a\" 0 0 0 0 0 0'', ptr = Some '' \"a\" 0 0 0 0 0 0'', inp = []\<rparr>
     EFP_COORD_TYPE_XYZABC = Inl INCORRECT_FRAGMENT_COORDINATES_FORMAT \<and>
   parse_config sample_platform (Some ''coord xyzabc\<newline>fragment \"a\" 0 0 0 0 0 0'') =
     Inl INCORRECT_FRAGMENT_COORDINATES_FORMAT \<and>
   map_sum id (\<lambda>c. map coord (frags c))
     (parse_config sample_platform
        (Some ''units bohr\<newline>coord points\<newline>fragment a\<newline>1 2 3\<newline>4 5 6\<newline>7 8 9\<newline>'')) =
     Inr [[1, 2, 3, 4, 5, 6, 7, 8, 9, 0, 0, 0]] \<and>
   parse_config sample_platform
     (Some ''units bohr\<newline>coord points\<newline>fragment a\<newline>1 2 3\<newline>4 5\<newline>7 8 9\<newline>'') =
     Inl INCORRECT_FRAGMENT_COORDINATES_FORMAT"
proof -
  let ?s = "\<lparr>buffer = Some ''fragment \"a\" 0 0 0 0 0 0'', ptr = Some '' \"a\" 0 0 0 0 0 0'', inp = []\<rparr>"
  have h1: "ptr ?s = Some '' \"a\" 0 0 0 0 0 0''" by simp
  have h2: "parse_string (Some '' \"a\" 0 0 0 0 0 0'') = Some (''a'', '' 0 0 0 0 0 0'')"
    by code_simp
  from h2 have "parse_string (ptr ?s) \<noteq> None \<and> inp ?s = []" by simp
  with C2_fragment_block [where s = ?s and E = sample_platform and ct = EFP_COORD_TYPE_XYZABC]
  have h3: "parse_frag sample_platform ?s EFP_COORD_TYPE_XYZABC =
      Inl INCORRECT_FRAGMENT_COORDINATES_FORMAT"
    by blast
  have h4: "parse_config sample_platform (Some ''coord xyzabc\<newline>fragment \"a\" 0 0 0 0 0 0'') =
     Inl INCORRECT_FRAGMENT_COORDINATES_FORMAT"
    by code_simp
  have h5: "map_sum id (\<lambda>c. map coord (frags c))
     (parse_config sample_platform
        (Some ''units bohr\<newline>coord points\<newline>fragment a\<newline>1 2 3\<newline>4 5 6\<newline>7 8 9\<newline>'')) =
     Inr [[1, 2, 3, 4, 5, 6, 7, 8, 9, 0, 0, 0]]"
    by code_simp
  have h6: "parse_config sample_platform
     (Some ''units bohr\<newline>coord points\<newline>fragment a\<newline>1 2 3\<newline>4 5\<newline>7 8 9\<newline>'') =
     Inl INCORRECT_FRAGMENT_COORDINATES_FORMAT"
    by code_simp
  from h1 h2 h3 h4 h5 h6 show ?thesis by (intro conjI)
qed

theorem C2_fragment_block_counterexample:
  "map_sum id (\<lambda>c. map coord (frags c))
     (parse_config sample_platform
        (Some ''units bohr\<newline>fragment a\<newline>1 2 3 4 5 6\<newline>coord points\<newline>fragment b\<newline>1 2 3\<newline>4 5 6\<newline>7 8 9\<newline>'')) =
     Inr [[1, 2, 3, 4, 5, 6, 0, 0, 0, 0, 0, 0], [1, 2, 3, 4, 5, 6, 7, 8, 9, 0, 0, 0]] \<and>
   coord_type (default_config sample_platform) = EFP_COORD_TYPE_XYZABC \<and>
   row_values sample_platform (n_cols EFP_COORD_TYPE_XYZABC) (Some ''1 2 3'') = None"
  by code_simp

end
